theory Spec2Isabelle
  imports Main
begin

section \<open>JavaScript numbers\<close>

text \<open>
  Every number of the repository is a JavaScript Number, an IEEE-754 binary64 value.
  The code is run on positive integers and, apart from the coefficients of \<open>extendedGcd\<close>,
  only ever holds non-negative integers, so a Number is modelled as a \<open>nat\<close> (an \<open>int\<close> in
  \<open>extendedGcd\<close>).  A binary64 value has a significand of 53 bits: every integer up to
  \<open>2 ^ 53\<close> is a Number, beyond that only the multiples of the unit in the last place are.

  The arithmetic of the source is modelled with its rounding (to the nearest Number, ties
  to the even significand):
  \<^item> \<open>a + b\<close>, \<open>k++\<close> and \<open>a - b\<close> are \<open>js_add\<close> and \<open>js_sub\<close>, \<open>a * b\<close> is \<open>js_mul\<close>: the exact
    result, rounded by \<open>round_double\<close> (\<open>ulp_exponent n\<close> is the exponent of the unit in the
    last place at \<open>n\<close>);
  \<^item> \<open>Math.floor(a / b)\<close> is \<open>js_floor_div\<close>: the quotient \<open>a / b\<close> is first rounded to a
    Number, with fractional bits when it is below \<open>2 ^ 52\<close> (\<open>up_shift\<close> counts them), and
    then floored;
  \<^item> \<open>a % b\<close> is exact for all Numbers and is \<open>mod\<close>; comparisons are exact.

  The counters \<open>n\<close>, \<open>tweak\<close> and \<open>backtrackCount\<close> stay below the literal caps \<open>200\<close>, \<open>6\<close>
  and \<open>5\<close> of the source, so their \<open>++\<close> is the successor of \<open>nat\<close>; \<open>n\<close> is the length of
  the array \<open>r\<close>.  Overflow to \<open>Infinity\<close> (beyond \<open>2 ^ 1024\<close>), which the unreduced product
  of the multipliers can reach, is not modelled; no statement below depends on a product
  of that size.
\<close>

function ulp_exponent :: "nat \<Rightarrow> nat" where
  "ulp_exponent n = (if n < 2 ^ 53 then 0 else Suc (ulp_exponent (n div 2)))"
  by pat_completeness auto
termination
  by (relation "measure (\<lambda>n. n)") auto

declare ulp_exponent.simps [simp del]

definition round_double :: "nat \<Rightarrow> nat" where
  "round_double n =
     (let e = ulp_exponent n; q = n div 2 ^ e; rest = n mod 2 ^ e
      in if 2 * rest < 2 ^ e then q * 2 ^ e
         else if 2 ^ e < 2 * rest then (q + 1) * 2 ^ e
         else if even q then q * 2 ^ e
         else (q + 1) * 2 ^ e)"

definition js_add :: "nat \<Rightarrow> nat \<Rightarrow> nat" where
  "js_add a b = round_double (a + b)"

text \<open>\<open>a - b\<close> is only formed with \<open>b \<le> a\<close>.\<close>

definition js_sub :: "nat \<Rightarrow> nat \<Rightarrow> nat" where
  "js_sub a b = round_double (a - b)"

definition js_mul :: "nat \<Rightarrow> nat \<Rightarrow> nat" where
  "js_mul a b = round_double (a * b)"

text \<open>
  \<open>round_half_even n d\<close> is the integer nearest to \<open>n / d\<close>, the even one of two that are
  equally near.  \<open>up_shift a b\<close> is the number \<open>s\<close> of fractional bits of the Number nearest
  to \<open>a / b\<close> when \<open>0 < a / b < 2 ^ 52\<close>: the least \<open>s\<close> with \<open>2 ^ 52 \<le> a * 2 ^ s / b\<close>.  A
  quotient of at least \<open>2 ^ 52\<close> is rounded to a multiple of its unit in the last place.
  The divisor is never \<open>0\<close> where the source divides.
\<close>

definition round_half_even :: "nat \<Rightarrow> nat \<Rightarrow> nat" where
  "round_half_even n d =
     (let q = n div d; rest = n mod d
      in if 2 * rest < d then q
         else if d < 2 * rest then q + 1
         else if even q then q
         else q + 1)"

function up_shift :: "nat \<Rightarrow> nat \<Rightarrow> nat" where
  "up_shift a b = (if a = 0 \<or> 2 ^ 52 * b \<le> a then 0 else Suc (up_shift (2 * a) b))"
  by pat_completeness auto
termination
  by (relation "measure (\<lambda>(a, b). 2 ^ 52 * b - a)") auto

declare up_shift.simps [simp del]

definition js_floor_div :: "nat \<Rightarrow> nat \<Rightarrow> nat" where
  "js_floor_div a b =
     (if 2 ^ 52 * b \<le> a
      then (let e = ulp_exponent (a div b) in round_half_even a (b * 2 ^ e) * 2 ^ e)
      else (let s = up_shift a b in round_half_even (a * 2 ^ s) b div 2 ^ s))"

text \<open>The same operations on the integers of \<open>extendedGcd\<close>; \<open>js_rem\<close> is \<open>%\<close>, whose result
  has the sign of the dividend.\<close>

definition round_double_int :: "int \<Rightarrow> int" where
  "round_double_int i = sgn i * int (round_double (nat \<bar>i\<bar>))"

definition js_add_int :: "int \<Rightarrow> int \<Rightarrow> int" where
  "js_add_int a b = round_double_int (a + b)"

definition js_sub_int :: "int \<Rightarrow> int \<Rightarrow> int" where
  "js_sub_int a b = round_double_int (a - b)"

definition js_mul_int :: "int \<Rightarrow> int \<Rightarrow> int" where
  "js_mul_int a b = round_double_int (a * b)"

definition js_rem :: "int \<Rightarrow> int \<Rightarrow> int" where
  "js_rem a b = sgn a * (\<bar>a\<bar> mod \<bar>b\<bar>)"

section \<open>Utilities shared by the variants\<close>

text \<open>
  \<open>gcd(a, b)\<close> of \<open>inverseModFixed.js\<close> and \<open>inverseModBacktrack.gpt5.js\<close>:
  \<^verbatim>\<open>while (b !== 0) { const temp = b; b = a % b; a = temp; } return a;\<close>
  \<open>computeGreatestCommonDivisor\<close> of \<open>humanized/modularInverse.js\<close> is the same loop after
  \<open>Math.abs\<close>, the identity on the non-negative numbers.
\<close>

function gcd_js :: "nat \<Rightarrow> nat \<Rightarrow> nat" where
  "gcd_js a b = (if b = 0 then a else gcd_js b (a mod b))"
  by pat_completeness auto
termination
  by (relation "measure (\<lambda>(a, b). b)") auto

declare gcd_js.simps [simp del]

definition computeGreatestCommonDivisor :: "nat \<Rightarrow> nat \<Rightarrow> nat" where
  "computeGreatestCommonDivisor a b = gcd_js a b"

text \<open>
  The parts of the message \<open>checkSpecialCases\<close> builds, and the lines of the \<open>result\<close> log
  of \<open>inverseModFull\<close> that say how the run ended.  The per-step lines and the
  \<open>Final Values\<close> lines print the arrays \<open>k\<close> and \<open>r\<close>; the model returns the arrays.
\<close>

datatype message = XCannotBeZero | YCannotBeZero | NotCoprimeMsg nat nat nat

datatype event =
    Special "message list"
  | MultipleOfModulus
  | TerminatedAtZero
  | TerminatedNotDecreasing
  | ProductOfMultipliers nat
  | FailedFinalRemainder nat
  | CorrectInverseNote int
  | Validation bool

record full_result =
  res_log :: "event list"
  res_z :: nat
  res_k :: "nat list"
  res_r :: "nat list"

definition checkSpecialCases :: "nat \<Rightarrow> nat \<Rightarrow> bool \<times> message list" where
  "checkSpecialCases x y =
     (if x = 0 \<or> y = 0
      then (True, (if x = 0 then [XCannotBeZero] else []) @ (if y = 0 then [YCannotBeZero] else []))
      else if gcd_js x y \<noteq> 1 then (True, [NotCoprimeMsg x y (gcd_js x y)])
      else (False, []))"

section \<open>The fixed variant (\<open>inverseModFixed.js\<close>)\<close>

definition maxIterations :: nat where
  "maxIterations = 100"

text \<open>
  The \<open>while\<close> loop of \<open>inverseModFull\<close>.  The counter \<open>n\<close> is the length of \<open>r\<close> (and of
  \<open>k\<close>) at every test of the loop condition, so \<open>r[n - 1]\<close> is the last remainder and
  \<open>k[n]\<close> the multiplier just pushed.
\<close>

function inverseModFull_loop :: "nat \<Rightarrow> nat list \<Rightarrow> nat list \<Rightarrow> nat list \<times> nat list \<times> event list" where
  "inverseModFull_loop y k r =
     (if r \<noteq> [] \<and> 1 < last r \<and> length r < maxIterations then
        (let prevR = last r;
             kn = (if y mod prevR = 0 then js_floor_div y prevR
                   else js_add (js_floor_div y prevR) 1);
             newR = js_mul prevR kn mod y
         in if newR = 0 then (k @ [kn], r @ [newR], [TerminatedAtZero])
            else if prevR \<le> newR then (k @ [kn], r @ [newR], [TerminatedNotDecreasing])
            else inverseModFull_loop y (k @ [kn]) (r @ [newR]))
      else (k, r, []))"
  by pat_completeness auto
termination
  by (relation "measure (\<lambda>(y, k, r). maxIterations - length r)") auto

declare inverseModFull_loop.simps [simp del]

text \<open>
  \<^verbatim>\<open>z = 1; for (const valueK of k) { z *= valueK; }\<close>: the product is accumulated in a
  Number, with no reduction modulo \<open>y\<close> before the end.
\<close>

definition multiplyAll :: "nat list \<Rightarrow> nat" where
  "multiplyAll k = foldl js_mul 1 k"

definition inverseModFull :: "nat \<Rightarrow> nat \<Rightarrow> full_result" where
  "inverseModFull x y =
     (let specialCase = checkSpecialCases x y
      in if fst specialCase
         then \<lparr>res_log = [Special (snd specialCase)], res_z = 0, res_k = [], res_r = []\<rparr>
         else
           (let currentX = x mod y
            in if currentX = 0
               then \<lparr>res_log = [MultipleOfModulus], res_z = 0, res_k = [], res_r = []\<rparr>
               else
                 (let k1 = js_add (js_floor_div y currentX) 1;
                      r1 = js_mul currentX k1 mod y
                  in case inverseModFull_loop y [k1] [r1] of
                       (k, r, notes) \<Rightarrow>
                         (let z = (if last r = 1 then multiplyAll k mod y else 0)
                          in \<lparr>res_log = notes
                                 @ [if last r = 1 then ProductOfMultipliers z
                                    else FailedFinalRemainder (last r)]
                                 @ [Validation (js_mul z x mod y = 1)],
                               res_z = z, res_k = k, res_r = r\<rparr>))))"

definition inverseMod :: "nat \<Rightarrow> nat \<Rightarrow> nat" where
  "inverseMod x y = res_z (inverseModFull x y)"

section \<open>The humanized variant (\<open>humanized/modularInverse.js\<close>)\<close>

text \<open>\<^verbatim>\<open>return Math.floor((numerator + denominator - 1) / denominator);\<close>\<close>

definition ceilDiv :: "nat \<Rightarrow> nat \<Rightarrow> nat" where
  "ceilDiv numerator denominator =
     js_floor_div (js_sub (js_add numerator denominator) 1) denominator"

text \<open>
  The \<open>settings\<close> object; \<open>progressRequired\<close> is the constant \<open>true\<close> in the source and is
  written out in \<open>dfs_offsets\<close>.
\<close>

record settings =
  maxDepth :: nat
  maxNodes :: nat
  multiplierOffsets :: "nat list"

definition default_settings :: settings where
  "default_settings = \<lparr>maxDepth = 64, maxNodes = 2000, multiplierOffsets = [0, 1, 2, 3]\<rparr>"

text \<open>
  The closure \<open>dfs\<close> and its \<open>for (const offset of settings.multiplierOffsets)\<close> loop.  The
  counter \<open>exploredNodes\<close>, a variable of the enclosing function that every call
  increments, is passed in and returned.  \<open>null\<close> is \<open>None\<close>.
\<close>

function dfs :: "settings \<Rightarrow> nat \<Rightarrow> nat \<Rightarrow> nat \<Rightarrow> nat list \<Rightarrow> nat list \<Rightarrow> nat
                 \<Rightarrow> (nat list \<times> nat list) option \<times> nat"
  and dfs_offsets :: "settings \<Rightarrow> nat \<Rightarrow> nat \<Rightarrow> nat \<Rightarrow> nat list \<Rightarrow> nat list \<Rightarrow> nat \<Rightarrow> nat list \<Rightarrow> nat
                 \<Rightarrow> (nat list \<times> nat list) option \<times> nat"
where
  "dfs st modulus currentRemainder depth chosenMultipliers remainderHistory exploredNodes =
     (if maxNodes st \<le> exploredNodes then (None, exploredNodes)
      else if currentRemainder = 1
        then (Some (chosenMultipliers, remainderHistory), js_add exploredNodes 1)
      else if maxDepth st \<le> depth then (None, js_add exploredNodes 1)
      else dfs_offsets st modulus currentRemainder depth chosenMultipliers remainderHistory
             (ceilDiv modulus currentRemainder) (multiplierOffsets st)
             (js_add exploredNodes 1))"
| "dfs_offsets st modulus currentRemainder depth chosenMultipliers remainderHistory
       baseMultiplier [] exploredNodes = (None, exploredNodes)"
| "dfs_offsets st modulus currentRemainder depth chosenMultipliers remainderHistory
       baseMultiplier (offset # offsets) exploredNodes =
     (let multiplier = js_add baseMultiplier offset;
          nextRemainder = js_mul currentRemainder multiplier mod modulus
      in if multiplier = 0 \<or> nextRemainder = 0 \<or> currentRemainder \<le> nextRemainder
         then dfs_offsets st modulus currentRemainder depth chosenMultipliers remainderHistory
                baseMultiplier offsets exploredNodes
         else
           (case dfs st modulus nextRemainder (js_add depth 1) (chosenMultipliers @ [multiplier])
                   (remainderHistory @ [nextRemainder]) exploredNodes of
              (Some result, nodes) \<Rightarrow> (Some result, nodes)
            | (None, nodes) \<Rightarrow>
                dfs_offsets st modulus currentRemainder depth chosenMultipliers remainderHistory
                  baseMultiplier offsets nodes))"
  by pat_completeness auto
termination
  by (relation "measures
        [\<lambda>a. case a of
            Inl (st, modulus, currentRemainder, rest) \<Rightarrow> currentRemainder
          | Inr (st, modulus, currentRemainder, rest) \<Rightarrow> currentRemainder,
         \<lambda>a. case a of
            Inl (st, rest) \<Rightarrow> Suc (length (multiplierOffsets st))
          | Inr (st, modulus, currentRemainder, depth, ms, rs, baseMultiplier, offsets, nodes) \<Rightarrow>
              length offsets]") auto

declare dfs.simps [simp del] dfs_offsets.simps [simp del]

record search_result =
  sr_found :: bool
  sr_inverse :: nat
  sr_multipliers :: "nat list"
  sr_remainders :: "nat list"
  sr_exploredNodes :: nat

text \<open>
  \<^verbatim>\<open>let inverse = 1; for (const multiplier of searchResult.multipliers) {
     inverse = (inverse * multiplier) % modulus; }\<close>
\<close>

definition productModulo :: "nat \<Rightarrow> nat list \<Rightarrow> nat" where
  "productModulo modulus ms = foldl (\<lambda>acc multiplier. js_mul acc multiplier mod modulus) 1 ms"

definition findInverseWithBacktracking :: "settings \<Rightarrow> nat \<Rightarrow> nat \<Rightarrow> search_result" where
  "findInverseWithBacktracking st base modulus =
     (let normalizedBase = js_add (base mod modulus) modulus mod modulus
      in if normalizedBase = 0
         then \<lparr>sr_found = False, sr_inverse = 0, sr_multipliers = [], sr_remainders = [0],
               sr_exploredNodes = 0\<rparr>
         else if normalizedBase = 1
         then \<lparr>sr_found = True, sr_inverse = 1, sr_multipliers = [1], sr_remainders = [1],
               sr_exploredNodes = 1\<rparr>
         else
           (case dfs st modulus normalizedBase 0 [] [normalizedBase] 0 of
              (None, nodes) \<Rightarrow>
                \<lparr>sr_found = False, sr_inverse = 0, sr_multipliers = [],
                 sr_remainders = [normalizedBase], sr_exploredNodes = nodes\<rparr>
            | (Some (ms, rs), nodes) \<Rightarrow>
                \<lparr>sr_found = True, sr_inverse = productModulo modulus ms, sr_multipliers = ms,
                 sr_remainders = rs, sr_exploredNodes = nodes\<rparr>))"

text \<open>
  The object \<open>computeModularInverse\<close> returns: \<open>Success\<close> carries \<open>inverse\<close> and the
  \<open>details\<close> (multipliers, remainders, explored nodes) with \<open>method: 'heuristic'\<close>;
  \<open>Failure\<close> has \<open>inverse: null\<close>, \<open>method: 'none'\<close>, \<open>details: null\<close> and the reason.  The only
  input check that can fail on a \<open>nat\<close> is \<open>modulus <= 0\<close>.
\<close>

datatype reason = InvalidInputs | NoInverseExists nat nat nat | SearchDidNotFind

datatype compute_result = Success nat "nat list" "nat list" nat | Failure reason

definition computeModularInverse :: "settings \<Rightarrow> nat \<Rightarrow> nat \<Rightarrow> compute_result" where
  "computeModularInverse st base modulus =
     (if modulus = 0 then Failure InvalidInputs
      else
        (let g = computeGreatestCommonDivisor base modulus
         in if g \<noteq> 1 then Failure (NoInverseExists base modulus g)
            else
              (let heuristic = findInverseWithBacktracking st base modulus
               in if sr_found heuristic
                  then Success (sr_inverse heuristic) (sr_multipliers heuristic)
                         (sr_remainders heuristic) (sr_exploredNodes heuristic)
                  else Failure SearchDidNotFind)))"

definition modularInverse :: "settings \<Rightarrow> nat \<Rightarrow> nat \<Rightarrow> nat option" where
  "modularInverse st base modulus =
     (case computeModularInverse st base modulus of
        Success found_inverse ms rs nodes \<Rightarrow> Some found_inverse
      | Failure why \<Rightarrow> None)"

section \<open>The backtracking variant (\<open>gpt5-analysis/code/inverseModBacktrack.gpt5.js\<close>)\<close>

text \<open>
  \<^verbatim>\<open>function normalizeKForBounds(rValue, y, initialK) {
     let k = initialK; while (k * rValue <= y) { k++; } return k; }\<close>
  The loop has no cap of its own, so it is a partial function: not returning is \<open>None\<close>.
\<close>

partial_function (option) normalizeKForBounds :: "nat \<Rightarrow> nat \<Rightarrow> nat \<Rightarrow> nat option" where
  "normalizeKForBounds rValue y k =
     (if js_mul k rValue \<le> y then normalizeKForBounds rValue y (js_add k 1) else Some k)"

definition computeNextK :: "nat \<Rightarrow> nat \<Rightarrow> nat option" where
  "computeNextK rValue y = normalizeKForBounds rValue y (js_add (js_floor_div y rValue) 1)"

text \<open>
  \<open>recalcRemaindersWithGivenK\<close> writes every normalized multiplier back into \<open>kList\<close>
  (\<^verbatim>\<open>kList[i] = k; // persist normalized\<close>); the model returns the updated list with the
  remainders and the flag \<open>failedAtZero\<close>.  \<open>recalc_loop\<close> is its \<open>for\<close> loop: \<open>prevR\<close> is
  \<open>current\<close> at \<open>i = 0\<close> and \<open>r[i - 1]\<close> later, \<open>kDone\<close> the entries of \<open>kList\<close> before \<open>i\<close>.
\<close>

fun recalc_loop :: "nat \<Rightarrow> nat \<Rightarrow> nat list \<Rightarrow> nat list \<Rightarrow> nat list
                    \<Rightarrow> (nat list \<times> nat list \<times> bool) option" where
  "recalc_loop y prevR kDone r [] = Some (kDone, r, False)"
| "recalc_loop y prevR kDone r (ki # kRest) =
     (case normalizeKForBounds prevR y ki of
        None \<Rightarrow> None
      | Some kn \<Rightarrow>
          (let newR = js_mul prevR kn mod y
           in if newR = 0 then Some (kDone @ kn # kRest, r @ [newR], True)
              else recalc_loop y newR (kDone @ [kn]) (r @ [newR]) kRest))"

definition recalcRemaindersWithGivenK :: "nat \<Rightarrow> nat \<Rightarrow> nat list
                    \<Rightarrow> (nat list \<times> nat list \<times> bool) option" where
  "recalcRemaindersWithGivenK x y kList =
     (let current = x mod y
      in if current = 0 then Some (kList, [0], True)
         else recalc_loop y current [] [] kList)"

text \<open>\<open>findEarliestOddKIndex\<close> returns \<open>-1\<close> when no multiplier is odd: \<open>None\<close>.\<close>

fun findEarliestOddKIndex :: "nat list \<Rightarrow> nat option" where
  "findEarliestOddKIndex [] = None"
| "findEarliestOddKIndex (kv # kRest) =
     (if kv mod 2 = 1 then Some 0 else map_option Suc (findEarliestOddKIndex kRest))"

definition maxTweak :: nat where
  "maxTweak = 5"

text \<open>
  \<open>tryLocalAdjustK\<close>: \<^verbatim>\<open>for (let tweak = 1; tweak <= maxTweak; tweak++)\<close>, returning the
  first candidate with a non-zero, smaller remainder, or \<open>null\<close>.
\<close>

function tryLocalAdjustK_from :: "nat \<Rightarrow> nat \<Rightarrow> nat \<Rightarrow> nat \<Rightarrow> (nat \<times> nat) option" where
  "tryLocalAdjustK_from prevR y currentK tweak =
     (if tweak \<le> maxTweak then
        (let candidateK = js_add currentK tweak;
             candidateR = js_mul prevR candidateK mod y
         in if candidateR \<noteq> 0 \<and> candidateR < prevR then Some (candidateK, candidateR)
            else tryLocalAdjustK_from prevR y currentK (tweak + 1))
      else None)"
  by pat_completeness auto
termination
  by (relation "measure (\<lambda>(prevR, y, currentK, tweak). maxTweak + 1 - tweak)") auto

declare tryLocalAdjustK_from.simps [simp del]

definition tryLocalAdjustK :: "nat \<Rightarrow> nat \<Rightarrow> nat \<Rightarrow> (nat \<times> nat) option" where
  "tryLocalAdjustK prevR y currentK = tryLocalAdjustK_from prevR y currentK 1"

definition maxIterations_backtrack :: nat where
  "maxIterations_backtrack = 200"

definition maxBacktracks :: nat where
  "maxBacktracks = 5"

text \<open>
  The body of the \<open>while\<close> loop of \<open>inverseModFull\<close> after \<open>k.push(kn); r.push(newR)\<close>
  (the two backtracking blocks and the two \<open>break\<close> tests).  \<open>k\<close> and \<open>r\<close> are the arrays
  after the push.  \<open>Continue\<close> is \<open>continue\<close> or falling through to \<open>n++\<close>, with the arrays
  and the backtrack counter the next iteration starts from; \<open>Stop\<close> is \<open>break\<close>.  In the
  parity block \<open>kPrefix\<close> is a copy (\<open>k.slice(0, idx + 1)\<close>), so when the recalculation
  fails at zero \<open>k\<close> keeps its full length, with \<open>k[idx]\<close> incremented.
\<close>

datatype loop_step =
    Continue "nat list" "nat list" nat
  | Stop "nat list" "nat list" "event list" nat

definition backtrackController :: "nat \<Rightarrow> nat \<Rightarrow> nat list \<Rightarrow> nat list \<Rightarrow> nat \<Rightarrow> nat \<Rightarrow> nat
                    \<Rightarrow> loop_step option" where
  "backtrackController x y k r prevR newR backtrackCount =
     (case (if newR = 0 \<and> y mod 2 = 0 \<and> prevR mod 2 = 0 \<and> backtrackCount < maxBacktracks
            then findEarliestOddKIndex k else None) of
        Some idx \<Rightarrow>
          (let kBumped = k[idx := js_add (k ! idx) 2]
           in case recalcRemaindersWithGivenK x y (take (idx + 1) kBumped) of
                None \<Rightarrow> None
              | Some (kPrefix, recalc_r, failedAtZero) \<Rightarrow>
                  if failedAtZero then Some (Continue kBumped recalc_r (backtrackCount + 1))
                  else Some (Continue kPrefix recalc_r (backtrackCount + 1)))
      | None \<Rightarrow>
          (case (if newR = 0 \<and> 1 < gcd_js prevR y \<and> backtrackCount < maxBacktracks
                 then findEarliestOddKIndex k else None) of
             Some idx \<Rightarrow>
               (let kBumped = k[idx := js_add (k ! idx) 2]
                in case recalcRemaindersWithGivenK x y (take (idx + 1) kBumped) of
                     None \<Rightarrow> None
                   | Some (kPrefix, recalc_r, failedAtZero) \<Rightarrow>
                       Some (Continue kPrefix recalc_r (backtrackCount + 1)))
           | None \<Rightarrow>
               if newR = 0 then Some (Stop k r [TerminatedAtZero] backtrackCount)
               else if prevR \<le> newR then Some (Stop k r [TerminatedNotDecreasing] backtrackCount)
               else Some (Continue k r backtrackCount)))"

lemma backtrackController_Continue:
  assumes "backtrackController x y k r prevR newR bc = Some (Continue k' r' bc')"
  shows "(bc < maxBacktracks \<and> bc' = bc + 1) \<or> (bc' = bc \<and> r' = r)"
  using assms
  by (auto simp: backtrackController_def Let_def split: option.splits if_splits prod.splits)

text \<open>
  The first half of the loop body: the baseline multiplier \<open>computeNextK(prevR, y)\<close>, its
  remainder, and the local adjustment that replaces both when the remainder is zero, does
  not decrease, or \<open>prevR\<close> shares a factor with an even \<open>y\<close>.  The result is the pair
  \<open>(kn, newR)\<close> that is pushed.
\<close>

definition tentativeStep :: "nat \<Rightarrow> nat \<Rightarrow> (nat \<times> nat) option" where
  "tentativeStep prevR y =
     (case computeNextK prevR y of
        None \<Rightarrow> None
      | Some kn \<Rightarrow>
          (let tentativeR = js_mul prevR kn mod y
           in if tentativeR = 0 \<or> prevR \<le> tentativeR \<or> (1 < gcd_js prevR y \<and> y mod 2 = 0)
              then (case tryLocalAdjustK prevR y kn of
                      Some (adjustedK, adjustedR) \<Rightarrow> Some (adjustedK, adjustedR)
                    | None \<Rightarrow> Some (kn, tentativeR))
              else Some (kn, tentativeR)))"

text \<open>
  The \<open>while (r[n - 1] > 1 && n < maxIterations)\<close> loop; \<open>n\<close> is \<open>r.length\<close> at every test
  of the condition (\<open>n++\<close> follows a push, and a backtrack sets \<open>n = r.length\<close>).
\<close>

function inverseModFull_backtrack_loop :: "nat \<Rightarrow> nat \<Rightarrow> nat list \<Rightarrow> nat list \<Rightarrow> nat
                    \<Rightarrow> (nat list \<times> nat list \<times> event list \<times> nat) option" where
  "inverseModFull_backtrack_loop x y k r backtrackCount =
     (if r \<noteq> [] \<and> 1 < last r \<and> length r < maxIterations_backtrack then
        (case tentativeStep (last r) y of
           None \<Rightarrow> None
         | Some (kn, newR) \<Rightarrow>
             (case backtrackController x y (k @ [kn]) (r @ [newR]) (last r) newR backtrackCount of
                None \<Rightarrow> None
              | Some (Continue k' r' bc') \<Rightarrow> inverseModFull_backtrack_loop x y k' r' bc'
              | Some (Stop k' r' evs bc') \<Rightarrow> Some (k', r', evs, bc')))
      else Some (k, r, [], backtrackCount))"
  by pat_completeness auto
termination inverseModFull_backtrack_loop
  by (relation "measures [\<lambda>(x, y, k, r, bc). maxBacktracks - bc,
                          \<lambda>(x, y, k, r, bc). maxIterations_backtrack - length r]")
     (auto dest!: backtrackController_Continue)

declare inverseModFull_backtrack_loop.simps [simp del]

record backtrack_result = full_result +
  res_backtracks :: nat

text \<open>
  \<open>extendedGcd(a, b)\<close> returns the object \<open>{x, y, gcd}\<close>, here a triple; its coefficients can
  be negative, so they are integers:
  \<^verbatim>\<open>y: result.x - Math.floor(a / b) * result.y\<close>
\<close>

function extendedGcd :: "nat \<Rightarrow> nat \<Rightarrow> int \<times> int \<times> nat" where
  "extendedGcd a b =
     (if b = 0 then (1, 0, a)
      else (case extendedGcd b (a mod b) of
              (result_x, result_y, result_gcd) \<Rightarrow>
                (result_y,
                 js_sub_int result_x (js_mul_int (int (js_floor_div a b)) result_y),
                 result_gcd)))"
  by pat_completeness auto
termination
  by (relation "measure (\<lambda>(a, b). b)") auto

declare extendedGcd.simps [simp del]

text \<open>
  After a failed search \<open>inverseModFull\<close> calls \<open>extendedGcd\<close>, but only to append the line
  \<open>Note: Correct inverse (extended Euclidean) = ...\<close> to the log; \<open>z\<close> stays \<open>0\<close>:
  \<^verbatim>\<open>const eg = extendedGcd(x, y);
  if (eg.gcd === 1) { let inv = eg.x % y; if (inv < 0) inv += y; result += ...; }\<close>
\<close>

definition correctInverseNote :: "nat \<Rightarrow> nat \<Rightarrow> event list" where
  "correctInverseNote x y =
     (case extendedGcd x y of
        (eg_x, eg_y, eg_gcd) \<Rightarrow>
          if eg_gcd = 1
          then (let inv = js_rem eg_x (int y)
                in [CorrectInverseNote (if inv < 0 then js_add_int inv (int y) else inv)])
          else [])"

definition inverseModFull_backtrack :: "nat \<Rightarrow> nat \<Rightarrow> backtrack_result option" where
  "inverseModFull_backtrack x y =
     (let special = checkSpecialCases x y
      in if fst special
         then Some \<lparr>res_log = [Special (snd special)], res_z = 0, res_k = [], res_r = [],
                    res_backtracks = 0\<rparr>
         else
           (let xNorm = x mod y
            in if xNorm = 0
               then Some \<lparr>res_log = [MultipleOfModulus], res_z = 0, res_k = [], res_r = [],
                          res_backtracks = 0\<rparr>
               else
                 (let k0 = js_floor_div y xNorm;
                      k1 = (if js_mul k0 xNorm \<le> y then js_add k0 1 else k0)
                  in case normalizeKForBounds xNorm y k1 of
                       None \<Rightarrow> None
                     | Some k1' \<Rightarrow>
                         (let newR = js_mul xNorm k1' mod y
                          in if newR = 0
                             then Some \<lparr>res_log = [TerminatedAtZero], res_z = 0, res_k = [k1'],
                                        res_r = [newR], res_backtracks = 0\<rparr>
                             else
                               (case inverseModFull_backtrack_loop x y [k1'] [newR] 0 of
                                  None \<Rightarrow> None
                                | Some (k, r, notes, bc) \<Rightarrow>
                                    (let z = (if last r = 1 then multiplyAll k mod y else 0)
                                     in Some \<lparr>res_log = notes
                                            @ (if last r = 1 then [ProductOfMultipliers z]
                                               else FailedFinalRemainder (last r)
                                                    # correctInverseNote x y)
                                            @ [Validation (js_mul z x mod y = 1)],
                                          res_z = z, res_k = k, res_r = r,
                                          res_backtracks = bc\<rparr>))))))"

definition inverseMod_backtrack :: "nat \<Rightarrow> nat \<Rightarrow> nat option" where
  "inverseMod_backtrack x y = map_option res_z (inverseModFull_backtrack x y)"

section \<open>Exact arithmetic below \<open>2 ^ 53\<close>\<close>

text \<open>
  Below \<open>2 ^ 53\<close> nothing is rounded: sums, differences and products that stay below it
  are exact, and so is the floored quotient of a dividend below it.
\<close>

lemma ulp_exponent_small: "n < 2 ^ 53 \<Longrightarrow> ulp_exponent n = 0"
  by (subst ulp_exponent.simps) simp

lemma round_double_exact: "n < 2 ^ 53 \<Longrightarrow> round_double n = n"
  by (simp add: round_double_def ulp_exponent_small)

lemma js_mul_exact: "a * b < 2 ^ 53 \<Longrightarrow> js_mul a b = a * b"
  by (simp add: js_mul_def round_double_exact)

lemma js_add_exact: "a + b < 2 ^ 53 \<Longrightarrow> js_add a b = a + b"
  by (simp add: js_add_def round_double_exact)

lemma js_sub_exact: "a - b < 2 ^ 53 \<Longrightarrow> js_sub a b = a - b"
  by (simp add: js_sub_def round_double_exact)

lemma round_half_even_cases:
  "round_half_even n d = n div d \<or> (round_half_even n d = n div d + 1 \<and> d \<le> 2 * (n mod d))"
  by (auto simp: round_half_even_def Let_def)

lemma up_shift_spec:
  "0 < a \<Longrightarrow> a < 2 ^ 52 * b \<Longrightarrow>
     2 ^ 52 * b \<le> a * 2 ^ up_shift a b \<and> a * 2 ^ up_shift a b < 2 ^ 53 * b"
proof (induction a b rule: up_shift.induct)
  case (1 a b)
  have step: "up_shift a b = Suc (up_shift (2 * a) b)"
    using "1.prems" by (subst up_shift.simps) simp
  show ?case
  proof (cases "2 ^ 52 * b \<le> 2 * a")
    case True
    then have "up_shift (2 * a) b = 0" by (subst up_shift.simps) simp
    with True "1.prems" show ?thesis by (simp add: step)
  next
    case False
    then have lt: "2 * a < 2 ^ 52 * b" by simp
    have "\<not> (a = 0 \<or> 2 ^ 52 * b \<le> a)" using "1.prems" by simp
    from "1.IH" [OF this _ lt] "1.prems"(1)
    have "2 ^ 52 * b \<le> 2 * a * 2 ^ up_shift (2 * a) b
        \<and> 2 * a * 2 ^ up_shift (2 * a) b < 2 ^ 53 * b" by simp
    then show ?thesis by (simp add: step mult.assoc mult.left_commute)
  qed
qed

lemma div_Suc_same:
  fixes q c :: nat
  assumes "\<not> c dvd (q + 1)"
  shows "(q + 1) div c = q div c"
  using assms by (simp add: div_Suc mod_eq_0_iff_dvd)

lemma js_floor_div_exact:
  assumes a: "a < 2 ^ 53" and b: "0 < b"
  shows "js_floor_div a b = a div b"
proof (cases "2 ^ 52 * b \<le> a")
  case True
  have "b = 1"
  proof (rule ccontr)
    assume "b \<noteq> 1"
    with b have "2 \<le> b" by simp
    then have "2 ^ 52 * 2 \<le> (2::nat) ^ 52 * b" by (rule mult_le_mono2)
    with True a show False by simp
  qed
  with a show ?thesis
    by (simp add: js_floor_div_def True ulp_exponent_small round_half_even_def)
next
  case False
  then have lt: "a < 2 ^ 52 * b" by simp
  show ?thesis
  proof (cases "a = 0")
    case True
    have "up_shift 0 b = 0" by (subst up_shift.simps) simp
    with True b show ?thesis
      using False by (simp add: js_floor_div_def round_half_even_def)
  next
    case nz: False
    define s where "s = up_shift a b"
    define c :: nat where "c = 2 ^ s"
    define N where "N = a * c"
    define Q where "Q = N div b"
    define R where "R = N mod b"
    have cpos: "0 < c" by (simp add: c_def)
    from up_shift_spec [of a b] nz lt
    have lo: "2 ^ 52 * b \<le> N" by (simp add: N_def c_def s_def)
    have N: "N = Q * b + R" by (simp add: Q_def R_def)
    have R: "R < b" using b by (simp add: R_def)
    have Qdiv: "Q div c = a div b"
    proof -
      have "Q div c = N div (b * c)" by (simp add: Q_def div_mult2_eq)
      also have "\<dots> = (a * c) div (b * c)" by (simp add: N_def)
      also have "\<dots> = a div b" using cpos by simp
      finally show ?thesis .
    qed
    have res: "js_floor_div a b = round_half_even N b div c"
      using False by (simp add: js_floor_div_def Let_def s_def c_def N_def)
    from round_half_even_cases [of N b]
    show ?thesis
    proof
      assume "round_half_even N b = N div b"
      with res Qdiv show ?thesis by (simp add: Q_def)
    next
      assume up: "round_half_even N b = N div b + 1 \<and> b \<le> 2 * (N mod b)"
      then have half: "b \<le> 2 * R" by (simp add: R_def)
      have "\<not> c dvd (Q + 1)"
      proof
        assume "c dvd (Q + 1)"
        then obtain t where t: "Q + 1 = c * t" by (auto simp: dvd_def)
        have Q1: "(Q + 1) * b = t * b * c" unfolding t by (simp add: mult.commute mult.left_commute)
        have "N < (Q + 1) * b" using N R by (simp add: algebra_simps)
        then have "a * c < t * b * c" unfolding Q1 N_def .
        then have "a < t * b" using cpos by simp
        then have "a + 1 \<le> t * b" by simp
        then have "(a + 1) * c \<le> t * b * c" by (rule mult_le_mono1)
        then have "N + c \<le> (Q + 1) * b" unfolding Q1 N_def by (simp add: algebra_simps)
        then have "2 * N + 2 * c \<le> 2 * Q * b + 2 * b" by (simp add: algebra_simps)
        moreover have "2 * Q * b + b \<le> 2 * N" using N half by (simp add: algebra_simps)
        ultimately have "2 * c \<le> b" by linarith
        then have "2 ^ 52 * (2 * c) \<le> (2::nat) ^ 52 * b" by (rule mult_le_mono2)
        moreover have "(2::nat) ^ 52 * (2 * c) = 2 ^ 53 * c" by simp
        ultimately have "2 ^ 53 * c \<le> 2 ^ 52 * b" by simp
        from order_trans [OF this lo] have "2 ^ 53 * c \<le> a * c" unfolding N_def .
        then have "2 ^ 53 \<le> a" using cpos by (simp only: mult_le_cancel2)
        with a show False by simp
      qed
      from div_Suc_same [OF this] have "(Q + 1) div c = Q div c" .
      with res up Qdiv show ?thesis by (simp add: Q_def)
    qed
  qed
qed

lemma round_double_int_exact: "\<bar>i\<bar> < 2 ^ 53 \<Longrightarrow> round_double_int i = i"
proof -
  assume "\<bar>i\<bar> < 2 ^ 53"
  then have "nat \<bar>i\<bar> < 2 ^ 53" by (simp add: nat_less_iff)
  then have "round_double (nat \<bar>i\<bar>) = nat \<bar>i\<bar>" by (rule round_double_exact)
  then show ?thesis by (simp add: round_double_int_def mult_sgn_abs)
qed

lemma js_add_int_exact: "\<bar>a + b\<bar> < 2 ^ 53 \<Longrightarrow> js_add_int a b = a + b"
  by (simp add: js_add_int_def round_double_int_exact)

lemma js_sub_int_exact: "\<bar>a - b\<bar> < 2 ^ 53 \<Longrightarrow> js_sub_int a b = a - b"
  by (simp add: js_sub_int_def round_double_int_exact)

lemma js_mul_int_exact: "\<bar>a * b\<bar> < 2 ^ 53 \<Longrightarrow> js_mul_int a b = a * b"
  by (simp add: js_mul_int_def round_double_int_exact)

lemmas js_exact = js_add_exact js_sub_exact js_mul_exact js_floor_div_exact

lemmas js_int_exact = js_add_int_exact js_sub_int_exact js_mul_int_exact

section \<open>Evaluation at concrete inputs\<close>

text \<open>The fixed variant at \<open>(5, 12)\<close>, \<open>(51, 421)\<close> and \<open>(119, 1261)\<close>.\<close>

lemma fixed_loop_5_12:
  "inverseModFull_loop 12 [3] [3] = ([3, 4], [3, 0], [TerminatedAtZero])"
  by (simp add: inverseModFull_loop.simps maxIterations_def js_exact Let_def)

lemma fixed_5_12:
  "inverseModFull 5 12 =
     \<lparr>res_log = [TerminatedAtZero, FailedFinalRemainder 0, Validation False],
      res_z = 0, res_k = [3, 4], res_r = [3, 0]\<rparr>"
  by (simp add: inverseModFull_def checkSpecialCases_def gcd_js.simps js_exact
      fixed_loop_5_12 Let_def)

lemma fixed_loop_51_421:
  "inverseModFull_loop 421 [9] [38] =
     ([9, 12, 13, 13, 21, 22, 23, 27, 39, 53, 141, 211],
      [38, 35, 34, 21, 20, 19, 16, 11, 8, 3, 2, 1], [])"
  by (simp add: inverseModFull_loop.simps maxIterations_def js_exact Let_def)

lemma multiplyAll_51_421:
  "multiplyAll [9, 12, 13, 13, 21, 22, 23, 27, 39, 53, 141, 211] = 322022398501171392"
  by (simp add: multiplyAll_def js_mul_def round_double_def ulp_exponent.simps Let_def)

lemma fixed_51_421:
  "inverseModFull 51 421 =
     \<lparr>res_log = [ProductOfMultipliers 412, Validation False], res_z = 412,
      res_k = [9, 12, 13, 13, 21, 22, 23, 27, 39, 53, 141, 211],
      res_r = [38, 35, 34, 21, 20, 19, 16, 11, 8, 3, 2, 1]\<rparr>"
  by (simp add: inverseModFull_def checkSpecialCases_def gcd_js.simps js_exact
      fixed_loop_51_421 multiplyAll_51_421 Let_def)

lemma fixed_loop_119_1261:
  "inverseModFull_loop 1261 [11] [48] =
     ([11, 27, 37, 38, 41, 127, 141, 158, 421, 631], [48, 35, 34, 31, 10, 9, 8, 3, 2, 1], [])"
  by (simp add: inverseModFull_loop.simps maxIterations_def js_exact Let_def)

lemma multiplyAll_119_1261:
  "multiplyAll [11, 27, 37, 38, 41, 127, 141, 158, 421, 631] mod 1261 = 0"
  by (simp add: multiplyAll_def js_mul_def round_double_def ulp_exponent.simps Let_def)

lemma fixed_119_1261:
  "inverseModFull 119 1261 =
     \<lparr>res_log = [ProductOfMultipliers 0, Validation False], res_z = 0,
      res_k = [11, 27, 37, 38, 41, 127, 141, 158, 421, 631],
      res_r = [48, 35, 34, 31, 10, 9, 8, 3, 2, 1]\<rparr>"
  by (simp add: inverseModFull_def checkSpecialCases_def gcd_js.simps js_exact
      fixed_loop_119_1261 multiplyAll_119_1261 Let_def)

text \<open>The humanized variant at \<open>(5, 12)\<close>, \<open>(7, 12)\<close> and \<open>(1, 10)\<close>.\<close>

lemma dfs_5_12: "dfs default_settings 12 5 0 [] [5] 0 = (Some ([5], [5, 1]), 3)"
  by (simp add: dfs.simps dfs_offsets.simps default_settings_def ceilDiv_def js_exact Let_def)

lemma humanized_5_12:
  "findInverseWithBacktracking default_settings 5 12 =
     \<lparr>sr_found = True, sr_inverse = 5, sr_multipliers = [5], sr_remainders = [5, 1],
      sr_exploredNodes = 3\<rparr>"
  by (simp add: findInverseWithBacktracking_def dfs_5_12 productModulo_def js_exact)

lemma compute_5_12: "computeModularInverse default_settings 5 12 = Success 5 [5] [5, 1] 3"
  by (simp add: computeModularInverse_def computeGreatestCommonDivisor_def gcd_js.simps
      humanized_5_12)

lemma dfs_7_12: "dfs default_settings 12 7 0 [] [7] 0 = (None, 3)"
  by (simp add: dfs.simps dfs_offsets.simps default_settings_def ceilDiv_def js_exact Let_def)

lemma humanized_7_12:
  "findInverseWithBacktracking default_settings 7 12 =
     \<lparr>sr_found = False, sr_inverse = 0, sr_multipliers = [], sr_remainders = [7],
      sr_exploredNodes = 3\<rparr>"
  by (simp add: findInverseWithBacktracking_def dfs_7_12 js_exact)

lemma compute_7_12: "computeModularInverse default_settings 7 12 = Failure SearchDidNotFind"
  by (simp add: computeModularInverse_def computeGreatestCommonDivisor_def gcd_js.simps
      humanized_7_12)

lemma humanized_1_10:
  "findInverseWithBacktracking default_settings 1 10 =
     \<lparr>sr_found = True, sr_inverse = 1, sr_multipliers = [1], sr_remainders = [1],
      sr_exploredNodes = 1\<rparr>"
  by (simp add: findInverseWithBacktracking_def js_exact)

text \<open>The backtracking variant at \<open>(5, 12)\<close>.\<close>

lemma normalizeKForBounds_5_12: "normalizeKForBounds 5 12 3 = Some 3"
  by (simp add: normalizeKForBounds.simps js_exact)

lemma computeNextK_3_12: "computeNextK 3 12 = Some 5"
  by (simp add: computeNextK_def normalizeKForBounds.simps js_exact)

lemma tryLocalAdjustK_3_12: "tryLocalAdjustK 3 12 5 = None"
  by (simp add: tryLocalAdjustK_def tryLocalAdjustK_from.simps maxTweak_def js_exact Let_def)

lemma tentativeStep_3_12: "tentativeStep 3 12 = Some (5, 3)"
  by (simp add: tentativeStep_def computeNextK_3_12 tryLocalAdjustK_3_12 js_exact)

lemma backtrackController_5_12:
  "backtrackController 5 12 [3, 5] [3, 3] 3 3 0
     = Some (Stop [3, 5] [3, 3] [TerminatedNotDecreasing] 0)"
  by (simp add: backtrackController_def)

lemma backtrack_loop_5_12:
  "inverseModFull_backtrack_loop 5 12 [3] [3] 0
     = Some ([3, 5], [3, 3], [TerminatedNotDecreasing], 0)"
  by (simp add: inverseModFull_backtrack_loop.simps maxIterations_backtrack_def
      tentativeStep_3_12 backtrackController_5_12)

lemma correctInverseNote_5_12: "correctInverseNote 5 12 = [CorrectInverseNote 5]"
  by (simp add: correctInverseNote_def extendedGcd.simps js_rem_def js_exact js_int_exact)

lemma backtrack_5_12:
  "inverseModFull_backtrack 5 12 =
     Some \<lparr>res_log = [TerminatedNotDecreasing, FailedFinalRemainder 3, CorrectInverseNote 5,
                      Validation False],
           res_z = 0, res_k = [3, 5], res_r = [3, 3], res_backtracks = 0\<rparr>"
  by (simp add: inverseModFull_backtrack_def checkSpecialCases_def gcd_js.simps
      normalizeKForBounds_5_12 backtrack_loop_5_12 correctInverseNote_5_12 js_exact Let_def)

lemma tentativeStep_2_12: "tentativeStep 2 12 = Some (7, 2)"
  by (simp add: tentativeStep_def computeNextK_def normalizeKForBounds.simps tryLocalAdjustK_def
      tryLocalAdjustK_from.simps maxTweak_def js_exact Let_def)

lemma backtrack_loop_7_12:
  "inverseModFull_backtrack_loop 7 12 [2] [2] 0
     = Some ([2, 7], [2, 2], [TerminatedNotDecreasing], 0)"
  by (simp add: inverseModFull_backtrack_loop.simps maxIterations_backtrack_def
      tentativeStep_2_12 backtrackController_def)

lemma backtrack_loop_7_12':
  "inverseModFull_backtrack_loop 7 12 [Suc (Suc 0)] [2] 0
     = Some ([2, 7], [2, 2], [TerminatedNotDecreasing], 0)"
  using backtrack_loop_7_12 by (simp add: numeral_2_eq_2)

lemma correctInverseNote_7_12: "correctInverseNote 7 12 = [CorrectInverseNote 7]"
  by (simp add: correctInverseNote_def extendedGcd.simps js_rem_def js_exact js_int_exact)

lemma backtrack_7_12:
  "inverseModFull_backtrack 7 12 =
     Some \<lparr>res_log = [TerminatedNotDecreasing, FailedFinalRemainder 2, CorrectInverseNote 7,
                      Validation False],
           res_z = 0, res_k = [2, 7], res_r = [2, 2], res_backtracks = 0\<rparr>"
  by (simp add: inverseModFull_backtrack_def checkSpecialCases_def gcd_js.simps
      normalizeKForBounds.simps backtrack_loop_7_12' correctInverseNote_7_12 js_exact Let_def)


lemma recalc_3_10:
  "recalcRemaindersWithGivenK 3 10 [6, 5] = Some ([6, 5], [8, 0], True)"
  by (simp add: recalcRemaindersWithGivenK_def normalizeKForBounds.simps js_exact Let_def)

text \<open>
  Inputs at which a sum is rounded.  \<open>2 ^ 53 + 1\<close> is not a Number; the sum is \<open>2 ^ 53\<close>.
\<close>

lemma round_double_2_53_1: "round_double 9007199254740993 = 9007199254740992"
  by (simp add: round_double_def ulp_exponent.simps)

lemma humanized_2_big:
  "findInverseWithBacktracking default_settings 2 9007199254740991 =
     \<lparr>sr_found = True, sr_inverse = 1, sr_multipliers = [1], sr_remainders = [1],
      sr_exploredNodes = 1\<rparr>"
  by (simp add: findInverseWithBacktracking_def js_add_def round_double_2_53_1)

lemma compute_2_big:
  "computeModularInverse default_settings 2 9007199254740991 = Success 1 [1] [1] 1"
  by (simp add: computeModularInverse_def computeGreatestCommonDivisor_def gcd_js.simps
      humanized_2_big)

text \<open>
  \<open>normalizeKForBounds(1, 2 ^ 53, 2 ^ 53)\<close>: \<open>k * 1 <= y\<close> holds and \<open>k++\<close> leaves \<open>k\<close> at
  \<open>2 ^ 53\<close>, so the loop does not end.
\<close>

lemma js_mul_2_53: "js_mul 9007199254740992 (Suc 0) = 9007199254740992"
  by (simp add: js_mul_def round_double_def ulp_exponent.simps)

lemma js_add_2_53: "js_add 9007199254740992 (Suc 0) = 9007199254740992"
  using round_double_2_53_1 by (simp add: js_add_def)

lemma normalizeKForBounds_not_Some:
  assumes "normalizeKForBounds rValue y k = Some res"
  shows "\<not> (rValue = Suc 0 \<and> y = 9007199254740992 \<and> k = 9007199254740992)"
  using assms
proof (induct rule: normalizeKForBounds.raw_induct [rotated 1, consumes 1])
  case (1 f rValue y k res)
  show ?case
  proof
    assume e: "rValue = Suc 0 \<and> y = 9007199254740992 \<and> k = 9007199254740992"
    from 1(2) e have s: "f (Suc 0) 9007199254740992 9007199254740992 = Some res"
      by (simp add: js_mul_2_53 js_add_2_53)
    from 1(1) [OF s] show False by simp
  qed
qed

lemma normalizeKForBounds_loops:
  "normalizeKForBounds 1 9007199254740992 9007199254740992 = None"
proof (cases "normalizeKForBounds 1 9007199254740992 9007199254740992")
  case None
  then show ?thesis .
next
  case (Some res)
  from normalizeKForBounds_not_Some [OF this] show ?thesis by simp
qed

lemma js_floor_div_2_53: "js_floor_div 9007199254740992 1 = 9007199254740992"
  by (simp add: js_floor_div_def ulp_exponent.simps round_half_even_def)

lemma backtrack_1_big: "inverseModFull_backtrack 1 9007199254740992 = None"
proof -
  have d: "js_floor_div 9007199254740992 (Suc 0) = 9007199254740992"
    using js_floor_div_2_53 by simp
  have l: "normalizeKForBounds (Suc 0) 9007199254740992 9007199254740992 = None"
    using normalizeKForBounds_loops by simp
  show ?thesis
    by (simp add: inverseModFull_backtrack_def checkSpecialCases_def gcd_js.simps
        d js_mul_2_53 js_add_2_53 l Let_def)
qed

text \<open>
  Quotients that are rounded: \<open>Math.floor(2 ^ 60 / 3)\<close>, where the unit in the last place
  is \<open>64\<close>, and \<open>ceilDiv(2 ^ 53 - 1, 3)\<close>, where \<open>numerator + denominator - 1\<close> is rounded to
  \<open>2 ^ 53\<close>.
\<close>

lemma js_floor_div_2_60_3:
  "js_floor_div 1152921504606846976 3 = 384307168202282304
   \<and> js_add 384307168202282304 1 = 384307168202282304"
  by (simp add: js_floor_div_def js_add_def round_double_def ulp_exponent.simps
      round_half_even_def)

lemma ceilDiv_rounded: "ceilDiv 9007199254740991 3 = 3002399751580330"
  by (simp add: ceilDiv_def js_add_def js_sub_def js_floor_div_def round_double_def
      ulp_exponent.simps up_shift.simps round_half_even_def)

section \<open>Invariants of the loops\<close>

lemma gcd_js_eq: "gcd_js a b = gcd a b"
proof (induction a b rule: gcd_js.induct)
  case (1 a b)
  show ?case
  proof (cases "b = 0")
    case True
    then show ?thesis by (subst gcd_js.simps) simp
  next
    case False
    then have "gcd_js a b = gcd b (a mod b)"
      using 1 by (subst gcd_js.simps) simp
    then show ?thesis
      using False by (simp add: gcd_non_0_nat)
  qed
qed

definition trace_ok :: "nat \<Rightarrow> nat \<Rightarrow> nat list \<Rightarrow> bool" where
  "trace_ok m cur rs2 \<longleftrightarrow>
     successively (\<lambda>a b. b < a) (cur # rs2) \<and> list_all (\<lambda>v. 0 < v \<and> v < m) rs2
     \<and> last (cur # rs2) = 1"

lemma dfs_offsets_skip:
  assumes "multiplier = js_add baseMultiplier offset"
    and "nextRemainder = js_mul currentRemainder multiplier mod modulus"
    and "multiplier = 0 \<or> nextRemainder = 0 \<or> currentRemainder \<le> nextRemainder"
  shows "dfs_offsets st modulus currentRemainder depth ks rs baseMultiplier (offset # offsets) nodes
       = dfs_offsets st modulus currentRemainder depth ks rs baseMultiplier offsets nodes"
  using assms by (subst dfs_offsets.simps) (auto simp: Let_def)

lemma dfs_offsets_try:
  assumes "multiplier = js_add baseMultiplier offset"
    and "nextRemainder = js_mul currentRemainder multiplier mod modulus"
    and "\<not> (multiplier = 0 \<or> nextRemainder = 0 \<or> currentRemainder \<le> nextRemainder)"
  shows "dfs_offsets st modulus currentRemainder depth ks rs baseMultiplier (offset # offsets) nodes
       = (case dfs st modulus nextRemainder (js_add depth 1) (ks @ [multiplier]) (rs @ [nextRemainder]) nodes of
            (Some result, nodes') \<Rightarrow> (Some result, nodes')
          | (None, nodes') \<Rightarrow>
              dfs_offsets st modulus currentRemainder depth ks rs baseMultiplier offsets nodes')"
  using assms by (subst dfs_offsets.simps) (auto simp: Let_def)

lemma dfs_trace:
  assumes m: "0 < m"
  shows "dfs st m cur depth ks rs nodes = (Some (ks', rs'), nodes') \<Longrightarrow>
           \<exists>ms rs2. ks' = ks @ ms \<and> rs' = rs @ rs2 \<and> length ms = length rs2 \<and> trace_ok m cur rs2"
    and "dfs_offsets st m cur depth ks rs b os nodes = (Some (ks', rs'), nodes') \<Longrightarrow>
           \<exists>ms rs2. ks' = ks @ ms \<and> rs' = rs @ rs2 \<and> length ms = length rs2 \<and> trace_ok m cur rs2"
  using m
proof (induction st m cur depth ks rs nodes and st m cur depth ks rs b os nodes
       arbitrary: ks' rs' nodes' and ks' rs' nodes' rule: dfs_dfs_offsets.induct)
  case (1 st modulus currentRemainder depth chosenMultipliers remainderHistory exploredNodes)
  show ?case
  proof (cases "currentRemainder = 1")
    case True
    with "1.prems" have "ks' = chosenMultipliers \<and> rs' = remainderHistory"
      by (subst (asm) dfs.simps) (simp split: if_splits)
    with True show ?thesis by (simp add: trace_ok_def)
  next
    case False
    with "1.prems" have *: "\<not> maxNodes st \<le> exploredNodes" "\<not> maxDepth st \<le> depth"
      and **: "dfs_offsets st modulus currentRemainder depth chosenMultipliers remainderHistory
             (ceilDiv modulus currentRemainder) (multiplierOffsets st) (js_add exploredNodes 1) = (Some (ks', rs'), nodes')"
      by (subst (asm) dfs.simps, simp split: if_splits)+
    from "1.IH" [OF * (1) False * (2) ** "1.prems"(2)] show ?thesis .
  qed
next
  case (2 st modulus currentRemainder depth chosenMultipliers remainderHistory baseMultiplier exploredNodes)
  then show ?case by (simp add: dfs_offsets.simps)
next
  case (3 st modulus currentRemainder depth chosenMultipliers remainderHistory baseMultiplier offset offsets exploredNodes)
  define multiplier where "multiplier = js_add baseMultiplier offset"
  define nextRemainder where "nextRemainder = js_mul currentRemainder multiplier mod modulus"
  show ?case
  proof (cases "multiplier = 0 \<or> nextRemainder = 0 \<or> currentRemainder \<le> nextRemainder")
    case True
    with "3.prems" have "dfs_offsets st modulus currentRemainder depth chosenMultipliers remainderHistory
                baseMultiplier offsets exploredNodes = (Some (ks', rs'), nodes')"
      by (simp only: dfs_offsets_skip [OF multiplier_def nextRemainder_def True])
    from "3.IH"(1) [OF multiplier_def nextRemainder_def True this "3.prems"(2)] show ?thesis .
  next
    case False
    obtain res nodes where d: "dfs st modulus nextRemainder (js_add depth 1) (chosenMultipliers @ [multiplier])
                   (remainderHistory @ [nextRemainder]) exploredNodes = (res, nodes)"
      by (cases "dfs st modulus nextRemainder (js_add depth 1) (chosenMultipliers @ [multiplier])
                   (remainderHistory @ [nextRemainder]) exploredNodes") auto
    show ?thesis
    proof (cases res)
      case None
      with "3.prems"(1) d have "dfs_offsets st modulus currentRemainder depth chosenMultipliers remainderHistory
                  baseMultiplier offsets nodes = (Some (ks', rs'), nodes')"
        by (simp add: dfs_offsets_try [OF multiplier_def nextRemainder_def False])
      from "3.IH"(3) [OF multiplier_def nextRemainder_def False d [symmetric, unfolded None] _ this "3.prems"(2)]
      show ?thesis by simp
    next
      case (Some result)
      with "3.prems"(1) d have r: "result = (ks', rs')" "nodes = nodes'"
        by (simp_all add: dfs_offsets_try [OF multiplier_def nextRemainder_def False])
      from "3.IH"(2) [OF multiplier_def nextRemainder_def False d [unfolded Some r] "3.prems"(2)]
      obtain ms rs2 where ih: "ks' = (chosenMultipliers @ [multiplier]) @ ms"
        "rs' = (remainderHistory @ [nextRemainder]) @ rs2" "length ms = length rs2"
        "trace_ok modulus nextRemainder rs2"
        by blast
      have "trace_ok modulus currentRemainder (nextRemainder # rs2)"
        using ih(4) False "3.prems"(2)
        by (auto simp: trace_ok_def nextRemainder_def)
      with ih show ?thesis
        by (intro exI [of _ "multiplier # ms"] exI [of _ "nextRemainder # rs2"]) simp
    qed
  qed
qed

lemma normalizedBase_exact:
  assumes "0 < modulus" and "modulus < 2 ^ 52"
  shows "js_add (base mod modulus) modulus mod modulus = base mod modulus"
proof -
  have "base mod modulus < modulus" using assms(1) by simp
  with assms(2) have "base mod modulus + modulus < 2 ^ 53" by simp
  then show ?thesis by (simp add: js_add_exact)
qed

lemma findInverseWithBacktracking_cases:
  assumes "0 < modulus" and "modulus < 2 ^ 52"
  shows "findInverseWithBacktracking st base modulus =
     (if base mod modulus = 0
      then \<lparr>sr_found = False, sr_inverse = 0, sr_multipliers = [], sr_remainders = [0],
            sr_exploredNodes = 0\<rparr>
      else if base mod modulus = 1
      then \<lparr>sr_found = True, sr_inverse = 1, sr_multipliers = [1], sr_remainders = [1],
            sr_exploredNodes = 1\<rparr>
      else
        (case dfs st modulus (base mod modulus) 0 [] [base mod modulus] 0 of
           (None, nodes) \<Rightarrow>
             \<lparr>sr_found = False, sr_inverse = 0, sr_multipliers = [],
              sr_remainders = [base mod modulus], sr_exploredNodes = nodes\<rparr>
         | (Some (ms, rs), nodes) \<Rightarrow>
             \<lparr>sr_found = True, sr_inverse = productModulo modulus ms, sr_multipliers = ms,
              sr_remainders = rs, sr_exploredNodes = nodes\<rparr>))"
  by (simp add: findInverseWithBacktracking_def Let_def normalizedBase_exact [OF assms])

lemma humanized_trace_shape:
  assumes "0 < modulus" and "modulus < 2 ^ 52"
  shows "list_all (\<lambda>v. v < modulus) (sr_remainders (findInverseWithBacktracking st base modulus))
       \<and> (if base mod modulus = 1
          then sr_multipliers (findInverseWithBacktracking st base modulus) = [1]
             \<and> sr_remainders (findInverseWithBacktracking st base modulus) = [1]
          else length (sr_remainders (findInverseWithBacktracking st base modulus))
                 = length (sr_multipliers (findInverseWithBacktracking st base modulus)) + 1
             \<and> hd (sr_remainders (findInverseWithBacktracking st base modulus)) = base mod modulus)"
proof -
  define nb where "nb = base mod modulus"
  have nb: "nb < modulus" using assms by (simp add: nb_def)
  show ?thesis
  proof (cases "nb = 0 \<or> nb = 1")
    case True
    then show ?thesis
      using nb by (auto simp: findInverseWithBacktracking_cases [OF assms] nb_def)
  next
    case False
    obtain res nodes where d: "dfs st modulus nb 0 [] [nb] 0 = (res, nodes)"
      by (cases "dfs st modulus nb 0 [] [nb] 0") auto
    show ?thesis
    proof (cases res)
      case None
      with d False nb show ?thesis
        by (simp add: findInverseWithBacktracking_cases [OF assms] nb_def)
    next
      case (Some a)
      obtain ms rs where a: "a = (ms, rs)" by (cases a) auto
      from dfs_trace(1) [OF assms(1) d [unfolded Some a]]
      obtain rs2 where rs: "rs = [nb] @ rs2" "length ms = length rs2"
        and ok: "trace_ok modulus nb rs2"
        by auto
      have res: "sr_remainders (findInverseWithBacktracking st base modulus) = nb # rs2"
        "sr_multipliers (findInverseWithBacktracking st base modulus) = ms"
        using d False Some a rs by (simp_all add: findInverseWithBacktracking_cases [OF assms] nb_def)
      have "list_all (\<lambda>v. v < modulus) rs2"
        using ok by (auto simp: trace_ok_def list_all_iff)
      with rs nb False show ?thesis
        unfolding res by (simp add: nb_def)
    qed
  qed
qed

text \<open>
  The multipliers the depth-first search chooses: \<open>ceilDiv modulus r\<close> is \<open>modulus / r\<close> when
  \<open>r\<close> divides \<open>modulus\<close> and \<open>floor(modulus / r) + 1\<close> otherwise, and every multiplier of a
  returned trace is that value plus one of the configured offsets.
\<close>

lemma ceilDiv_exact:
  assumes "0 < d" and "n + d < 2 ^ 53"
  shows "ceilDiv n d = (n + d - 1) div d"
proof -
  have "js_add n d = n + d" using assms(2) by (simp add: js_add_exact)
  moreover have "js_sub (n + d) 1 = n + d - 1" using assms(2) by (simp add: js_sub_exact)
  moreover have "js_floor_div (n + d - 1) d = (n + d - 1) div d"
    using assms by (simp add: js_floor_div_exact)
  ultimately show ?thesis by (simp add: ceilDiv_def)
qed

lemma ceilDiv_cases:
  assumes "0 < d" and "n + d < 2 ^ 53"
  shows "ceilDiv n d = (if n mod d = 0 then n div d else n div d + 1)"
proof -
  define q where "q = n div d"
  define m where "m = n mod d"
  have n: "n = q * d + m" by (simp add: q_def m_def)
  have m: "m < d" using assms by (simp add: m_def)
  show ?thesis
  proof (cases "m = 0")
    case True
    define e where "e = d - 1"
    have e: "e < d" using assms by (simp add: e_def)
    then have "(q * d + e) div d = q" by simp
    moreover have "n + d - 1 = q * d + e" using n True assms by (simp add: e_def)
    ultimately have "ceilDiv n d = q" by (simp add: ceilDiv_exact [OF assms])
    with True show ?thesis by (simp add: q_def m_def)
  next
    case False
    define e where "e = m - 1"
    have e: "e < d" using m by (simp add: e_def)
    define q' where "q' = q + 1"
    from e have "(q' * d + e) div d = q'" by simp
    moreover have "n + d - 1 = q' * d + e" using n False by (simp add: e_def q'_def)
    ultimately have "ceilDiv n d = q + 1" by (simp add: ceilDiv_exact [OF assms] q'_def)
    with False show ?thesis by (simp add: q_def m_def)
  qed
qed

lemma dfs_rule:
  "dfs st m cur depth ks rs nodes = (Some (ks', rs'), nodes') \<Longrightarrow>
     0 < cur \<and> cur < m \<and> m < 2 ^ 52 \<and> list_all (\<lambda>ofs. ofs < 2 ^ 52) (multiplierOffsets st) \<Longrightarrow>
     \<exists>ms rs2. ks' = ks @ ms \<and> rs' = rs @ rs2
       \<and> list_all2 (\<lambda>prevR kn. \<exists>offset\<in>set (multiplierOffsets st).
             kn = (if m mod prevR = 0 then m div prevR else m div prevR + 1) + offset)
           (butlast (cur # rs2)) ms"
  and "dfs_offsets st m cur depth ks rs b os nodes = (Some (ks', rs'), nodes') \<Longrightarrow>
     0 < cur \<and> cur < m \<and> m < 2 ^ 52 \<and> list_all (\<lambda>ofs. ofs < 2 ^ 52) (multiplierOffsets st) \<Longrightarrow>
     b = ceilDiv m cur \<Longrightarrow> set os \<subseteq> set (multiplierOffsets st) \<Longrightarrow>
     \<exists>ms rs2. ks' = ks @ ms \<and> rs' = rs @ rs2
       \<and> list_all2 (\<lambda>prevR kn. \<exists>offset\<in>set (multiplierOffsets st).
             kn = (if m mod prevR = 0 then m div prevR else m div prevR + 1) + offset)
           (butlast (cur # rs2)) ms"
proof (induction st m cur depth ks rs nodes and st m cur depth ks rs b os nodes
       arbitrary: ks' rs' nodes' and ks' rs' nodes' rule: dfs_dfs_offsets.induct)
  case (1 st modulus currentRemainder depth chosenMultipliers remainderHistory exploredNodes)
  show ?case
  proof (cases "currentRemainder = 1")
    case True
    with "1.prems" have "ks' = chosenMultipliers \<and> rs' = remainderHistory"
      by (subst (asm) dfs.simps) (simp split: if_splits)
    then show ?thesis by simp
  next
    case False
    with "1.prems" have *: "\<not> maxNodes st \<le> exploredNodes" "\<not> maxDepth st \<le> depth"
      and **: "dfs_offsets st modulus currentRemainder depth chosenMultipliers remainderHistory
             (ceilDiv modulus currentRemainder) (multiplierOffsets st) (js_add exploredNodes 1) = (Some (ks', rs'), nodes')"
      by (subst (asm) dfs.simps, simp split: if_splits)+
    from "1.IH" [OF * (1) False * (2) ** "1.prems"(2) refl subset_refl] show ?thesis .
  qed
next
  case (2 st modulus currentRemainder depth chosenMultipliers remainderHistory baseMultiplier exploredNodes)
  then show ?case by (simp add: dfs_offsets.simps)
next
  case (3 st modulus currentRemainder depth chosenMultipliers remainderHistory baseMultiplier offset offsets exploredNodes)
  define multiplier where "multiplier = js_add baseMultiplier offset"
  define nextRemainder where "nextRemainder = js_mul currentRemainder multiplier mod modulus"
  have sub: "set offsets \<subseteq> set (multiplierOffsets st)" and off: "offset \<in> set (multiplierOffsets st)"
    using "3.prems"(4) by simp_all
  show ?case
  proof (cases "multiplier = 0 \<or> nextRemainder = 0 \<or> currentRemainder \<le> nextRemainder")
    case True
    with "3.prems"(1) have "dfs_offsets st modulus currentRemainder depth chosenMultipliers remainderHistory
                baseMultiplier offsets exploredNodes = (Some (ks', rs'), nodes')"
      by (simp only: dfs_offsets_skip [OF multiplier_def nextRemainder_def True])
    from "3.IH"(1) [OF multiplier_def nextRemainder_def True this "3.prems"(2,3) sub] show ?thesis .
  next
    case False
    obtain res nodes where d: "dfs st modulus nextRemainder (js_add depth 1) (chosenMultipliers @ [multiplier])
                   (remainderHistory @ [nextRemainder]) exploredNodes = (res, nodes)"
      by (cases "dfs st modulus nextRemainder (js_add depth 1) (chosenMultipliers @ [multiplier])
                   (remainderHistory @ [nextRemainder]) exploredNodes") auto
    show ?thesis
    proof (cases res)
      case None
      with "3.prems"(1) d have "dfs_offsets st modulus currentRemainder depth chosenMultipliers remainderHistory
                  baseMultiplier offsets nodes = (Some (ks', rs'), nodes')"
        by (simp add: dfs_offsets_try [OF multiplier_def nextRemainder_def False])
      from "3.IH"(3) [OF multiplier_def nextRemainder_def False d [symmetric, unfolded None] _ this "3.prems"(2,3) sub]
      show ?thesis by simp
    next
      case (Some result)
      with "3.prems"(1) d have r: "result = (ks', rs')" "nodes = nodes'"
        by (simp_all add: dfs_offsets_try [OF multiplier_def nextRemainder_def False])
      have pos: "0 < nextRemainder \<and> nextRemainder < modulus \<and> modulus < 2 ^ 52
          \<and> list_all (\<lambda>ofs. ofs < 2 ^ 52) (multiplierOffsets st)"
        using False "3.prems"(2) by (simp add: nextRemainder_def)
      from "3.IH"(2) [OF multiplier_def nextRemainder_def False d [unfolded Some r] pos]
      obtain ms rs2 where ih: "ks' = (chosenMultipliers @ [multiplier]) @ ms"
        "rs' = (remainderHistory @ [nextRemainder]) @ rs2"
        "list_all2 (\<lambda>prevR kn. \<exists>offset\<in>set (multiplierOffsets st).
             kn = (if modulus mod prevR = 0 then modulus div prevR else modulus div prevR + 1) + offset)
           (butlast (nextRemainder # rs2)) ms"
        by blast
      have sum: "modulus + currentRemainder < 2 ^ 53" using "3.prems"(2) by simp
      have cd: "ceilDiv modulus currentRemainder = (if modulus mod currentRemainder = 0
          then modulus div currentRemainder else modulus div currentRemainder + 1)"
        using "3.prems"(2) sum by (intro ceilDiv_cases) simp_all
      have "ceilDiv modulus currentRemainder \<le> modulus div currentRemainder + 1"
        by (simp add: cd)
      also have "\<dots> \<le> modulus + 1" by (simp add: div_le_dividend)
      finally have cb: "ceilDiv modulus currentRemainder \<le> modulus + 1" .
      have ob: "offset < 2 ^ 52" using off "3.prems"(2) by (auto simp: list_all_iff)
      have "ceilDiv modulus currentRemainder + offset < 2 ^ 53"
        using cb ob "3.prems"(2) by simp
      then have "multiplier = ceilDiv modulus currentRemainder + offset"
        using "3.prems"(3) by (simp add: multiplier_def js_add_exact)
      then have "multiplier = (if modulus mod currentRemainder = 0 then modulus div currentRemainder
                          else modulus div currentRemainder + 1) + offset"
        by (simp only: cd)
      with off have "\<exists>offset\<in>set (multiplierOffsets st).
          multiplier = (if modulus mod currentRemainder = 0 then modulus div currentRemainder
                        else modulus div currentRemainder + 1) + offset"
        by blast
      with ih(3) have "list_all2 (\<lambda>prevR kn. \<exists>offset\<in>set (multiplierOffsets st).
             kn = (if modulus mod prevR = 0 then modulus div prevR else modulus div prevR + 1) + offset)
           (butlast (currentRemainder # nextRemainder # rs2)) (multiplier # ms)"
        by simp
      with ih(1,2) show ?thesis
        by (intro exI [of _ "multiplier # ms"] exI [of _ "nextRemainder # rs2"]) simp
    qed
  qed
qed

lemma humanized_rule:
  assumes "0 < modulus" and "modulus < 2 ^ 52" and "base mod modulus \<noteq> 1"
    and "list_all (\<lambda>ofs. ofs < 2 ^ 52) (multiplierOffsets st)"
  shows "list_all2 (\<lambda>prevR kn. \<exists>offset\<in>set (multiplierOffsets st).
             kn = (if modulus mod prevR = 0 then modulus div prevR else modulus div prevR + 1) + offset)
           (butlast (sr_remainders (findInverseWithBacktracking st base modulus)))
           (sr_multipliers (findInverseWithBacktracking st base modulus))"
proof -
  define nb where "nb = base mod modulus"
  show ?thesis
  proof (cases "nb = 0")
    case True
    then show ?thesis by (simp add: findInverseWithBacktracking_cases [OF assms(1,2)] nb_def)
  next
    case False
    obtain res nodes where d: "dfs st modulus nb 0 [] [nb] 0 = (res, nodes)"
      by (cases "dfs st modulus nb 0 [] [nb] 0") auto
    show ?thesis
    proof (cases res)
      case None
      with d False assms show ?thesis
        by (simp add: findInverseWithBacktracking_cases [OF assms(1,2)] nb_def)
    next
      case (Some a)
      obtain ms rs where a: "a = (ms, rs)" by (cases a) auto
      from False assms(1,2,4) have "0 < nb \<and> nb < modulus \<and> modulus < 2 ^ 52
          \<and> list_all (\<lambda>ofs. ofs < 2 ^ 52) (multiplierOffsets st)"
        by (simp add: nb_def)
      from dfs_rule(1) [OF d [unfolded Some a] this]
      obtain rs2 where rs: "rs = [nb] @ rs2"
        and ok: "list_all2 (\<lambda>prevR kn. \<exists>offset\<in>set (multiplierOffsets st).
             kn = (if modulus mod prevR = 0 then modulus div prevR else modulus div prevR + 1) + offset)
           (butlast (nb # rs2)) ms"
        by auto
      have res: "sr_remainders (findInverseWithBacktracking st base modulus) = nb # rs2"
        "sr_multipliers (findInverseWithBacktracking st base modulus) = ms"
        using d False assms Some a rs by (simp_all add: findInverseWithBacktracking_cases [OF assms(1,2)] nb_def)
      from ok show ?thesis unfolding res .
    qed
  qed
qed

lemma fixed_loop_shape:
  "inverseModFull_loop y k r = (k', r', evs) \<Longrightarrow> 0 < y \<Longrightarrow> length k = length r \<Longrightarrow>
     list_all (\<lambda>v. v < y) r \<Longrightarrow> length k' = length r' \<and> list_all (\<lambda>v. v < y) r'"
proof (induction y k r arbitrary: k' r' evs rule: inverseModFull_loop.induct)
  case (1 y k r)
  show ?case
  proof (cases "r \<noteq> [] \<and> 1 < last r \<and> length r < maxIterations")
    case False
    with "1.prems" show ?thesis
      by (subst (asm) inverseModFull_loop.simps) auto
  next
    case True
    define prevR where "prevR = last r"
    define kn where "kn = (if y mod prevR = 0 then js_floor_div y prevR
                          else js_add (js_floor_div y prevR) 1)"
    define newR where "newR = js_mul prevR kn mod y"
    have step: "inverseModFull_loop y k r =
        (if newR = 0 then (k @ [kn], r @ [newR], [TerminatedAtZero])
         else if prevR \<le> newR then (k @ [kn], r @ [newR], [TerminatedNotDecreasing])
         else inverseModFull_loop y (k @ [kn]) (r @ [newR]))"
      using True by (subst inverseModFull_loop.simps) (simp add: Let_def prevR_def kn_def newR_def)
    have bound: "newR < y"
      using "1.prems"(2) by (simp add: newR_def)
    show ?thesis
    proof (cases "newR = 0 \<or> prevR \<le> newR")
      case True
      with "1.prems" step bound show ?thesis by (auto split: if_splits)
    next
      case False
      with "1.prems"(1) step have "inverseModFull_loop y (k @ [kn]) (r @ [newR]) = (k', r', evs)"
        by simp
      from "1.IH" [OF True prevR_def kn_def newR_def _ _ this "1.prems"(2)] False "1.prems"(3,4) bound
      show ?thesis by simp
    qed
  qed
qed

lemma fixed_trace_shape:
  assumes "0 < y"
  shows "length (res_k (inverseModFull x y)) = length (res_r (inverseModFull x y))
       \<and> list_all (\<lambda>v. v < y) (res_r (inverseModFull x y))"
proof (cases "fst (checkSpecialCases x y) \<or> x mod y = 0")
  case True
  then show ?thesis by (auto simp: inverseModFull_def Let_def)
next
  case False
  define k1 where "k1 = js_add (js_floor_div y (x mod y)) 1"
  define r1 where "r1 = js_mul (x mod y) k1 mod y"
  obtain k r evs where l: "inverseModFull_loop y [k1] [r1] = (k, r, evs)"
    by (cases "inverseModFull_loop y [k1] [r1]") auto
  have "r1 < y" using assms by (simp add: r1_def)
  with fixed_loop_shape [OF l assms] have "length k = length r \<and> list_all (\<lambda>v. v < y) r"
    by simp
  moreover have "res_k (inverseModFull x y) = k" "res_r (inverseModFull x y) = r"
    using False l by (simp_all add: inverseModFull_def Let_def k1_def r1_def)
  ultimately show ?thesis by simp
qed

lemma fixed_loop_rule:
  "inverseModFull_loop y k r = (k', r', evs) \<Longrightarrow> length k = length r \<Longrightarrow> r \<noteq> [] \<Longrightarrow>
     list_all2 (\<lambda>prevR kn. kn = (if y mod prevR = 0 then y div prevR else y div prevR + 1))
       (butlast r) (tl k) \<Longrightarrow> y < 2 ^ 52 \<Longrightarrow>
     hd k' = hd k \<and>
     list_all2 (\<lambda>prevR kn. kn = (if y mod prevR = 0 then y div prevR else y div prevR + 1))
       (butlast r') (tl k')"
proof (induction y k r arbitrary: k' r' evs rule: inverseModFull_loop.induct)
  case (1 y k r)
  show ?case
  proof (cases "r \<noteq> [] \<and> 1 < last r \<and> length r < maxIterations")
    case False
    with "1.prems" show ?thesis
      by (subst (asm) inverseModFull_loop.simps) auto
  next
    case True
    define prevR where "prevR = last r"
    define kn where "kn = (if y mod prevR = 0 then js_floor_div y prevR
                          else js_add (js_floor_div y prevR) 1)"
    define newR where "newR = js_mul prevR kn mod y"
    have step: "inverseModFull_loop y k r =
        (if newR = 0 then (k @ [kn], r @ [newR], [TerminatedAtZero])
         else if prevR \<le> newR then (k @ [kn], r @ [newR], [TerminatedNotDecreasing])
         else inverseModFull_loop y (k @ [kn]) (r @ [newR]))"
      using True by (subst inverseModFull_loop.simps) (simp add: Let_def prevR_def kn_def newR_def)
    have k: "k \<noteq> []" using "1.prems"(2,3) by auto
    have pr: "0 < prevR" using True by (simp add: prevR_def)
    have q: "js_floor_div y prevR = y div prevR"
      using "1.prems"(5) pr by (simp add: js_floor_div_exact)
    have "y div prevR \<le> y" by (rule div_le_dividend)
    from this "1.prems"(5) have "y div prevR < 2 ^ 52" by (rule le_less_trans)
    then have "y div prevR + 1 < 2 ^ 53" by simp
    then have kn: "kn = (if y mod prevR = 0 then y div prevR else y div prevR + 1)"
      by (simp add: kn_def q js_add_exact)
    have "list_all2 (\<lambda>prevR kn. kn = (if y mod prevR = 0 then y div prevR else y div prevR + 1))
            (butlast r @ [last r]) (tl k @ [kn])"
      using "1.prems"(4) kn by (intro list_all2_appendI) (simp_all add: prevR_def)
    then have inv: "list_all2 (\<lambda>prevR kn. kn = (if y mod prevR = 0 then y div prevR else y div prevR + 1))
            (butlast (r @ [newR])) (tl (k @ [kn]))"
      using k "1.prems"(3) by simp
    have hd: "hd (k @ [kn]) = hd k" using k by simp
    show ?thesis
    proof (cases "newR = 0 \<or> prevR \<le> newR")
      case True
      with "1.prems"(1) step have "k' = k @ [kn] \<and> r' = r @ [newR]"
        by (auto split: if_splits)
      with inv hd show ?thesis by simp
    next
      case False
      with "1.prems"(1) step have "inverseModFull_loop y (k @ [kn]) (r @ [newR]) = (k', r', evs)"
        by simp
      from "1.IH" [OF True prevR_def kn_def newR_def _ _ this _ _ inv "1.prems"(5)] False "1.prems"(2) hd
      show ?thesis by simp
    qed
  qed
qed

subsection \<open>The backtracking variant returns for \<open>y < 2 ^ 52\<close>\<close>

text \<open>
  While \<open>k * rValue \<le> y\<close> the multiplier \<open>k\<close> is at most \<open>2 * y\<close>, so for \<open>y < 2 ^ 52\<close> its
  increment is exact and \<open>normalizeKForBounds\<close> ends.
\<close>

lemma ulp_exponent_quotient:
  "n div 2 ^ ulp_exponent n < 2 ^ 53 \<and> (0 < ulp_exponent n \<longrightarrow> 2 ^ 52 \<le> n div 2 ^ ulp_exponent n)"
proof (induction n rule: ulp_exponent.induct)
  case (1 n)
  show ?case
  proof (cases "n < 2 ^ 53")
    case True
    then show ?thesis by (simp add: ulp_exponent_small)
  next
    case False
    then have e: "ulp_exponent n = Suc (ulp_exponent (n div 2))"
      by (subst ulp_exponent.simps) simp
    have d: "n div 2 ^ Suc (ulp_exponent (n div 2)) = (n div 2) div 2 ^ ulp_exponent (n div 2)"
      by (simp add: div_mult2_eq)
    have "2 ^ 52 \<le> n div 2" using False by simp
    then have "ulp_exponent (n div 2) = 0 \<Longrightarrow> 2 ^ 52 \<le> (n div 2) div 2 ^ ulp_exponent (n div 2)"
      by simp
    with "1.IH" [OF False] show ?thesis
      unfolding e d by auto
  qed
qed

lemma round_double_lower: "n \<le> 2 * round_double n"
proof (cases "ulp_exponent n = 0")
  case True
  then show ?thesis by (simp add: round_double_def)
next
  case False
  define e where "e = ulp_exponent n"
  define q where "q = n div 2 ^ e"
  have q: "1 \<le> q"
    using ulp_exponent_quotient [of n] False by (simp add: q_def e_def)
  have m: "n mod 2 ^ e < 2 ^ e" by simp
  have "n < q * 2 ^ e + 2 ^ e"
    using div_mult_mod_eq [of n "2 ^ e"] m unfolding q_def by linarith
  also have "\<dots> = (q + 1) * 2 ^ e" by (simp add: algebra_simps)
  also have "\<dots> \<le> 2 * (q * 2 ^ e)" using q by (simp add: algebra_simps)
  finally have n: "n < 2 * (q * 2 ^ e)" .
  have "q * 2 ^ e \<le> round_double n"
    by (simp add: round_double_def Let_def q_def e_def)
  with n show ?thesis by simp
qed

lemma normalizeKForBounds_returns:
  assumes "0 < rValue" and "y < 2 ^ 52"
  shows "\<exists>k'. normalizeKForBounds rValue y k = Some k'"
proof (induction "2 * y + 1 - k" arbitrary: k rule: less_induct)
  case less
  show ?case
  proof (cases "js_mul k rValue \<le> y")
    case False
    then show ?thesis by (subst normalizeKForBounds.simps) simp
  next
    case True
    have "k \<le> k * rValue" using assms(1) by simp
    also have "\<dots> \<le> 2 * js_mul k rValue" by (simp add: js_mul_def round_double_lower)
    also have "\<dots> \<le> 2 * y" using True by simp
    finally have k: "k \<le> 2 * y" .
    then have "k + 1 < 2 ^ 53" using assms(2) by simp
    then have inc: "js_add k 1 = k + 1" by (rule js_add_exact)
    from k have "2 * y + 1 - (k + 1) < 2 * y + 1 - k" by simp
    from less [OF this] have "\<exists>k'. normalizeKForBounds rValue y (js_add k 1) = Some k'"
      unfolding inc .
    with True show ?thesis
      by (subst normalizeKForBounds.simps) simp
  qed
qed

lemma computeNextK_returns:
  "0 < rValue \<Longrightarrow> y < 2 ^ 52 \<Longrightarrow> \<exists>kn. computeNextK rValue y = Some kn"
  by (simp add: computeNextK_def normalizeKForBounds_returns)

lemma recalc_loop_returns:
  assumes y: "y < 2 ^ 52"
  shows "0 < prevR \<Longrightarrow> \<exists>res. recalc_loop y prevR kDone r kList = Some res"
proof (induction kList arbitrary: prevR kDone r)
  case Nil
  show ?case by (rule exI [of _ "(kDone, r, False)"]) simp
next
  case (Cons ki kRest)
  from normalizeKForBounds_returns [OF Cons.prems y, of ki]
  obtain kn where kn: "normalizeKForBounds prevR y ki = Some kn" by blast
  show ?case
  proof (cases "js_mul prevR kn mod y = 0")
    case True
    with kn show ?thesis
      by (intro exI [of _ "(kDone @ kn # kRest, r @ [js_mul prevR kn mod y], True)"])
         (simp add: Let_def)
  next
    case False
    then have "0 < js_mul prevR kn mod y" by simp
    from Cons.IH [OF this, of "kDone @ [kn]" "r @ [js_mul prevR kn mod y]"]
    obtain res where "recalc_loop y (js_mul prevR kn mod y) (kDone @ [kn])
        (r @ [js_mul prevR kn mod y]) kRest = Some res" by blast
    with kn False show ?thesis
      by (intro exI [of _ res]) (simp add: Let_def)
  qed
qed

lemma recalcRemaindersWithGivenK_returns:
  assumes y: "y < 2 ^ 52"
  shows "\<exists>res. recalcRemaindersWithGivenK x y kList = Some res"
proof (cases "x mod y = 0")
  case True
  then show ?thesis
    by (intro exI [of _ "(kList, [0], True)"]) (simp add: recalcRemaindersWithGivenK_def)
next
  case False
  then have "0 < x mod y" by simp
  from recalc_loop_returns [OF y this, of "[]" "[]" kList] False show ?thesis
    by (simp add: recalcRemaindersWithGivenK_def)
qed

lemma backtrackController_returns:
  assumes y: "y < 2 ^ 52"
  shows "\<exists>step. backtrackController x y k r prevR newR bc = Some step"
proof -
  have "\<And>kList. \<exists>a b c. recalcRemaindersWithGivenK x y kList = Some (a, b, c)"
    using recalcRemaindersWithGivenK_returns [OF y] by (metis prod_cases3)
  then show ?thesis
    unfolding backtrackController_def Let_def
    by (auto split: option.splits if_splits prod.splits) (metis option.distinct(1))+
qed

lemma tentativeStep_returns:
  assumes "0 < prevR" and "y < 2 ^ 52"
  shows "\<exists>kn newR. tentativeStep prevR y = Some (kn, newR)"
proof -
  from computeNextK_returns [OF assms]
  obtain kn where "computeNextK prevR y = Some kn" by blast
  then show ?thesis
    by (auto simp: tentativeStep_def Let_def split: option.splits)
qed

lemma backtrack_loop_returns:
  "bc \<le> maxBacktracks \<Longrightarrow> y < 2 ^ 52 \<Longrightarrow>
     \<exists>k' r' evs bc'. inverseModFull_backtrack_loop x y k r bc = Some (k', r', evs, bc')
        \<and> bc' \<le> maxBacktracks"
proof (induction x y k r bc rule: inverseModFull_backtrack_loop.induct)
  case (1 x y k r backtrackCount)
  show ?case
  proof (cases "r \<noteq> [] \<and> 1 < last r \<and> length r < maxIterations_backtrack")
    case False
    then show ?thesis
      using "1.prems" by (subst inverseModFull_backtrack_loop.simps) auto
  next
    case True
    then have "0 < last r" by simp
    from tentativeStep_returns [OF this "1.prems"(2)]
    obtain kn newR where kn: "tentativeStep (last r) y = Some (kn, newR)" by blast
    from backtrackController_returns [OF "1.prems"(2), of x "k @ [kn]" "r @ [newR]" "last r" newR backtrackCount]
    obtain step where step: "backtrackController x y (k @ [kn]) (r @ [newR]) (last r) newR backtrackCount
        = Some step" by blast
    have unfold: "inverseModFull_backtrack_loop x y k r backtrackCount =
        (case step of
           Continue k' r' bc' \<Rightarrow> inverseModFull_backtrack_loop x y k' r' bc'
         | Stop k' r' evs bc' \<Rightarrow> Some (k', r', evs, bc'))"
      using True kn step
      by (subst inverseModFull_backtrack_loop.simps) simp
    show ?thesis
    proof (cases step)
      case (Continue k' r' bc')
      from backtrackController_Continue [OF step [unfolded Continue]] "1.prems"(1)
      have "bc' \<le> maxBacktracks" by auto
      from "1.IH" [OF True kn refl step Continue this "1.prems"(2)]
      show ?thesis unfolding unfold Continue by simp
    next
      case (Stop k' r' evs bc')
      with step have "bc' = backtrackCount"
        by (auto simp: backtrackController_def Let_def split: option.splits if_splits prod.splits)
      with "1.prems" show ?thesis unfolding unfold Stop by simp
    qed
  qed
qed

lemma inverseModFull_backtrack_returns:
  assumes y: "y < 2 ^ 52"
  shows "\<exists>res. inverseModFull_backtrack x y = Some res \<and> res_backtracks res \<le> maxBacktracks"
proof (cases "fst (checkSpecialCases x y) \<or> x mod y = 0")
  case True
  then show ?thesis by (auto simp: inverseModFull_backtrack_def Let_def)
next
  case False
  then have "0 < x mod y" by simp
  define k0 where "k0 = (if js_mul (js_floor_div y (x mod y)) (x mod y) \<le> y
      then js_add (js_floor_div y (x mod y)) 1 else js_floor_div y (x mod y))"
  from normalizeKForBounds_returns [OF \<open>0 < x mod y\<close> y, of k0]
  obtain k1 where k1: "normalizeKForBounds (x mod y) y k0 = Some k1" by blast
  show ?thesis
  proof (cases "js_mul (x mod y) k1 mod y = 0")
    case True
    with False k1 show ?thesis
      by (simp add: inverseModFull_backtrack_def Let_def k0_def)
  next
    case nz: False
    from backtrack_loop_returns [OF _ y, of 0 x "[k1]" "[js_mul (x mod y) k1 mod y]"]
    obtain k r evs bc where l: "inverseModFull_backtrack_loop x y [k1] [js_mul (x mod y) k1 mod y] 0
        = Some (k, r, evs, bc)" and bc: "bc \<le> maxBacktracks"
      by auto
    with False k1 nz show ?thesis
      by (simp add: inverseModFull_backtrack_def Let_def k0_def)
  qed
qed

subsection \<open>Budgets\<close>

lemma dfs_budget:
  shows "dfs st m cur depth ks rs nodes = (res, nodes') \<Longrightarrow>
           maxNodes st < 2 ^ 53 \<and> maxDepth st < 2 ^ 53 \<Longrightarrow>
           nodes' \<le> max nodes (maxNodes st)
           \<and> (case res of None \<Rightarrow> True
               | Some (ks', rs') \<Rightarrow> length ks' \<le> length ks + (maxDepth st - depth))"
    and "dfs_offsets st m cur depth ks rs b os nodes = (res, nodes') \<Longrightarrow> depth < maxDepth st \<Longrightarrow>
           maxNodes st < 2 ^ 53 \<and> maxDepth st < 2 ^ 53 \<Longrightarrow>
           nodes' \<le> max nodes (maxNodes st)
           \<and> (case res of None \<Rightarrow> True
               | Some (ks', rs') \<Rightarrow> length ks' \<le> length ks + (maxDepth st - depth))"
proof (induction st m cur depth ks rs nodes and st m cur depth ks rs b os nodes
       arbitrary: res nodes' and res nodes' rule: dfs_dfs_offsets.induct)
  case (1 st modulus currentRemainder depth chosenMultipliers remainderHistory exploredNodes)
  show ?case
  proof (cases "maxNodes st \<le> exploredNodes \<or> currentRemainder = 1 \<or> maxDepth st \<le> depth")
    case True
    have "maxNodes st \<le> exploredNodes \<or> js_add exploredNodes 1 = exploredNodes + 1"
      using "1.prems"(2) by (cases "maxNodes st \<le> exploredNodes") (simp_all add: js_add_exact)
    with True "1.prems"(1) show ?thesis
      by (subst (asm) dfs.simps) (auto split: if_splits)
  next
    case False
    with "1.prems"(1) have **: "dfs_offsets st modulus currentRemainder depth chosenMultipliers remainderHistory
             (ceilDiv modulus currentRemainder) (multiplierOffsets st) (js_add exploredNodes 1) = (res, nodes')"
      by (subst (asm) dfs.simps) (simp split: if_splits)
    from False have c: "\<not> maxNodes st \<le> exploredNodes" "currentRemainder \<noteq> 1" "\<not> maxDepth st \<le> depth"
      by simp_all
    have "exploredNodes + 1 < 2 ^ 53" using c(1) "1.prems"(2) by simp
    then have inc: "js_add exploredNodes 1 = exploredNodes + 1" by (rule js_add_exact)
    from "1.IH" [OF c ** _ "1.prems"(2), unfolded inc] c show ?thesis
      by (auto simp: max_def split: option.splits)
  qed
next
  case (2 st modulus currentRemainder depth chosenMultipliers remainderHistory baseMultiplier exploredNodes)
  then show ?case by (auto simp: dfs_offsets.simps)
next
  case (3 st modulus currentRemainder depth chosenMultipliers remainderHistory baseMultiplier offset offsets exploredNodes)
  define multiplier where "multiplier = js_add baseMultiplier offset"
  define nextRemainder where "nextRemainder = js_mul currentRemainder multiplier mod modulus"
  show ?case
  proof (cases "multiplier = 0 \<or> nextRemainder = 0 \<or> currentRemainder \<le> nextRemainder")
    case True
    with "3.prems"(1) have "dfs_offsets st modulus currentRemainder depth chosenMultipliers remainderHistory
                baseMultiplier offsets exploredNodes = (res, nodes')"
      by (simp only: dfs_offsets_skip [OF multiplier_def nextRemainder_def True])
    from "3.IH"(1) [OF multiplier_def nextRemainder_def True this "3.prems"(2,3)] show ?thesis .
  next
    case False
    have "depth + 1 < 2 ^ 53" using "3.prems"(2,3) by simp
    then have inc: "js_add depth 1 = depth + 1" by (rule js_add_exact)
    obtain res1 nodes1 where d: "dfs st modulus nextRemainder (js_add depth 1) (chosenMultipliers @ [multiplier])
                   (remainderHistory @ [nextRemainder]) exploredNodes = (res1, nodes1)"
      by (cases "dfs st modulus nextRemainder (js_add depth 1) (chosenMultipliers @ [multiplier])
                   (remainderHistory @ [nextRemainder]) exploredNodes") auto
    from "3.IH"(2) [OF multiplier_def nextRemainder_def False d "3.prems"(3), unfolded inc]
    have ih2: "nodes1 \<le> max exploredNodes (maxNodes st)"
      "case res1 of None \<Rightarrow> True
         | Some (ks', rs') \<Rightarrow> length ks' \<le> length (chosenMultipliers @ [multiplier]) + (maxDepth st - (depth + 1))"
      by simp_all
    show ?thesis
    proof (cases res1)
      case None
      with "3.prems"(1) d have "dfs_offsets st modulus currentRemainder depth chosenMultipliers remainderHistory
                  baseMultiplier offsets nodes1 = (res, nodes')"
        by (simp add: dfs_offsets_try [OF multiplier_def nextRemainder_def False])
      from "3.IH"(3) [OF multiplier_def nextRemainder_def False d [symmetric, unfolded None] _ this "3.prems"(2,3)]
        ih2(1)
      show ?thesis by (auto simp: max_def split: option.splits if_splits)
    next
      case (Some result)
      with "3.prems"(1) d have r: "res = Some result" "nodes' = nodes1"
        by (simp_all add: dfs_offsets_try [OF multiplier_def nextRemainder_def False])
      with ih2 Some "3.prems"(2) show ?thesis
        by (auto split: prod.splits)
    qed
  qed
qed

lemma humanized_budget:
  assumes "0 < modulus" and "modulus < 2 ^ 52"
    and "maxNodes st < 2 ^ 53 \<and> maxDepth st < 2 ^ 53"
  shows "sr_exploredNodes (findInverseWithBacktracking st base modulus) \<le> max 1 (maxNodes st)
   \<and> length (sr_multipliers (findInverseWithBacktracking st base modulus)) \<le> max 1 (maxDepth st)"
proof (cases "base mod modulus = 0 \<or> base mod modulus = 1")
  case True
  then show ?thesis by (auto simp: findInverseWithBacktracking_cases [OF assms(1,2)])
next
  case False
  obtain res nodes where d: "dfs st modulus (base mod modulus) 0 [] [base mod modulus] 0 = (res, nodes)"
    by (cases "dfs st modulus (base mod modulus) 0 [] [base mod modulus] 0") auto
  from dfs_budget(1) [OF d assms(3)] d False show ?thesis
    by (auto simp: findInverseWithBacktracking_cases [OF assms(1,2)] split: option.splits)
qed

lemma fixed_loop_length:
  "inverseModFull_loop y k r = (k', r', evs) \<Longrightarrow> length r \<le> maxIterations \<Longrightarrow>
     length r' \<le> maxIterations"
proof (induction y k r arbitrary: k' r' evs rule: inverseModFull_loop.induct)
  case (1 y k r)
  show ?case
  proof (cases "r \<noteq> [] \<and> 1 < last r \<and> length r < maxIterations")
    case False
    with "1.prems" show ?thesis
      by (subst (asm) inverseModFull_loop.simps) auto
  next
    case True
    define prevR where "prevR = last r"
    define kn where "kn = (if y mod prevR = 0 then js_floor_div y prevR
                          else js_add (js_floor_div y prevR) 1)"
    define newR where "newR = js_mul prevR kn mod y"
    have step: "inverseModFull_loop y k r =
        (if newR = 0 then (k @ [kn], r @ [newR], [TerminatedAtZero])
         else if prevR \<le> newR then (k @ [kn], r @ [newR], [TerminatedNotDecreasing])
         else inverseModFull_loop y (k @ [kn]) (r @ [newR]))"
      using True by (subst inverseModFull_loop.simps) (simp add: Let_def prevR_def kn_def newR_def)
    show ?thesis
    proof (cases "newR = 0 \<or> prevR \<le> newR")
      case stop: True
      with "1.prems"(1) step True show ?thesis by (auto split: if_splits)
    next
      case False
      with "1.prems"(1) step have "inverseModFull_loop y (k @ [kn]) (r @ [newR]) = (k', r', evs)"
        by simp
      from "1.IH" [OF True prevR_def kn_def newR_def _ _ this] False True
      show ?thesis by simp
    qed
  qed
qed

lemma fixed_length:
  "length (res_r (inverseModFull x y)) \<le> maxIterations"
proof (cases "fst (checkSpecialCases x y) \<or> x mod y = 0")
  case True
  then show ?thesis by (auto simp: inverseModFull_def Let_def)
next
  case False
  define k1 where "k1 = js_add (js_floor_div y (x mod y)) 1"
  define r1 where "r1 = js_mul (x mod y) k1 mod y"
  obtain k r evs where l: "inverseModFull_loop y [k1] [r1] = (k, r, evs)"
    by (cases "inverseModFull_loop y [k1] [r1]") auto
  from fixed_loop_length [OF l] have "length r \<le> maxIterations"
    by (simp add: maxIterations_def)
  moreover have "res_r (inverseModFull x y) = r"
    using False l by (simp add: inverseModFull_def Let_def k1_def r1_def)
  ultimately show ?thesis by simp
qed

subsection \<open>The backtracking controller\<close>

lemma findEarliestOddKIndex_Some:
  "findEarliestOddKIndex k = Some idx \<Longrightarrow>
     idx < length k \<and> k ! idx mod 2 = 1 \<and> (\<forall>j<idx. k ! j mod 2 = 0)"
proof (induction k arbitrary: idx)
  case Nil
  then show ?case by simp
next
  case (Cons kv kRest)
  show ?case
  proof (cases "kv mod 2 = 1")
    case True
    with Cons.prems show ?thesis by simp
  next
    case False
    with Cons.prems obtain i where i: "findEarliestOddKIndex kRest = Some i" "idx = Suc i"
      by auto
    from Cons.IH [OF i(1)] False i(2) show ?thesis
      by (auto simp: less_Suc_eq_0_disj)
  qed
qed

lemma findEarliestOddKIndex_None:
  "findEarliestOddKIndex k = None \<longleftrightarrow> list_all (\<lambda>kv. kv mod 2 = 0) k"
  by (induction k) auto

lemma recalc_loop_lengths:
  "recalc_loop y prevR kDone r kList = Some (kP, rP, failedAtZero) \<Longrightarrow>
     length kP = length kDone + length kList
     \<and> length rP \<le> length r + length kList
     \<and> (if failedAtZero then rP \<noteq> [] \<and> last rP = 0 else length rP = length r + length kList)"
proof (induction kList arbitrary: prevR kDone r)
  case Nil
  then show ?case by simp
next
  case (Cons ki kRest)
  from Cons.prems obtain kn where kn: "normalizeKForBounds prevR y ki = Some kn"
    by (auto split: option.splits)
  show ?case
  proof (cases "js_mul prevR kn mod y = 0")
    case True
    with Cons.prems kn show ?thesis by (auto simp: Let_def)
  next
    case False
    with Cons.prems kn have "recalc_loop y (js_mul prevR kn mod y) (kDone @ [kn])
        (r @ [js_mul prevR kn mod y]) kRest = Some (kP, rP, failedAtZero)"
      by (simp add: Let_def)
    from Cons.IH [OF this] show ?thesis by (auto split: if_splits)
  qed
qed

lemma recalcRemaindersWithGivenK_lengths:
  assumes "recalcRemaindersWithGivenK x y kList = Some (kP, rP, failedAtZero)"
    and "kList \<noteq> []"
  shows "length kP = length kList \<and> rP \<noteq> [] \<and> length rP \<le> length kList
       \<and> (if failedAtZero then last rP = 0 else length rP = length kList)"
proof (cases "x mod y = 0")
  case True
  with assms show ?thesis
    by (auto simp: recalcRemaindersWithGivenK_def Suc_le_eq)
next
  case False
  with assms(1) have "recalc_loop y (x mod y) [] [] kList = Some (kP, rP, failedAtZero)"
    by (simp add: recalcRemaindersWithGivenK_def)
  from recalc_loop_lengths [OF this] assms(2) show ?thesis
    by (cases failedAtZero) auto
qed

lemma backtrackController_parity:
  assumes "newR = 0" and "y mod 2 = 0" and "prevR mod 2 = 0" and "bc < maxBacktracks"
    and "findEarliestOddKIndex k = Some idx"
    and "kBumped = k[idx := js_add (k ! idx) 2]" and "kCut = take (idx + 1) kBumped"
  shows "backtrackController x y k r prevR newR bc =
     (case recalcRemaindersWithGivenK x y kCut of
        None \<Rightarrow> None
      | Some (kPrefix, recalc_r, failedAtZero) \<Rightarrow>
          if failedAtZero then Some (Continue kBumped recalc_r (bc + 1))
          else Some (Continue kPrefix recalc_r (bc + 1)))"
  using assms
  by (auto simp: backtrackController_def Let_def split: option.splits prod.splits)

lemma backtrackController_gcd:
  assumes "newR = 0" and "\<not> (y mod 2 = 0 \<and> prevR mod 2 = 0)" and "1 < gcd_js prevR y"
    and "bc < maxBacktracks" and "findEarliestOddKIndex k = Some idx"
    and "kBumped = k[idx := js_add (k ! idx) 2]" and "kCut = take (idx + 1) kBumped"
  shows "backtrackController x y k r prevR newR bc =
     (case recalcRemaindersWithGivenK x y kCut of
        None \<Rightarrow> None
      | Some (kPrefix, recalc_r, failedAtZero) \<Rightarrow> Some (Continue kPrefix recalc_r (bc + 1)))"
  using assms
  by (auto simp: backtrackController_def Let_def split: option.splits prod.splits)

lemma backtrackController_plain:
  assumes "findEarliestOddKIndex k = None \<or> newR \<noteq> 0 \<or> \<not> bc < maxBacktracks
           \<or> (\<not> (y mod 2 = 0 \<and> prevR mod 2 = 0) \<and> \<not> 1 < gcd_js prevR y)"
  shows "backtrackController x y k r prevR newR bc =
     (if newR = 0 then Some (Stop k r [TerminatedAtZero] bc)
      else if prevR \<le> newR then Some (Stop k r [TerminatedNotDecreasing] bc)
      else Some (Continue k r bc))"
  using assms by (auto simp: backtrackController_def Let_def split: option.splits)

lemma backtrackController_lengths:
  assumes "backtrackController x y k r prevR newR bc = Some step"
  shows "case step of
           Stop k' r' evs bc' \<Rightarrow> k' = k \<and> r' = r \<and> bc' = bc
         | Continue k' r' bc' \<Rightarrow>
             (k' = k \<and> r' = r \<and> bc' = bc)
             \<or> (r' \<noteq> [] \<and> length r' \<le> length k \<and> (length k' \<le> length r' \<or> last r' = 0))"
proof (cases "findEarliestOddKIndex k = None \<or> newR \<noteq> 0 \<or> \<not> bc < maxBacktracks
           \<or> (\<not> (y mod 2 = 0 \<and> prevR mod 2 = 0) \<and> \<not> 1 < gcd_js prevR y)")
  case True
  from assms show ?thesis
    unfolding backtrackController_plain [OF True] by (auto split: if_splits)
next
  case False
  then obtain idx where i: "findEarliestOddKIndex k = Some idx" and z: "newR = 0"
    and b: "bc < maxBacktracks" by auto
  define kBumped where "kBumped = k[idx := js_add (k ! idx) 2]"
  define kCut where "kCut = take (idx + 1) kBumped"
  from findEarliestOddKIndex_Some [OF i] have lt: "idx < length k" by simp
  then have ne: "kCut \<noteq> []" and lc: "length kCut = idx + 1"
    by (auto simp: kCut_def kBumped_def)
  have facts: "rP \<noteq> [] \<and> length rP \<le> length k \<and> length kP = idx + 1
      \<and> (if f then last rP = 0 else length rP = idx + 1)"
    if "recalcRemaindersWithGivenK x y kCut = Some (kP, rP, f)" for kP rP f
    using recalcRemaindersWithGivenK_lengths [OF that ne] lt lc by (auto split: if_splits)
  show ?thesis
  proof (cases "y mod 2 = 0 \<and> prevR mod 2 = 0")
    case True
    then have p: "y mod 2 = 0" "prevR mod 2 = 0" by simp_all
    from assms [unfolded backtrackController_parity [OF z p b i kBumped_def kCut_def]]
    obtain kP rP f where rc: "recalcRemaindersWithGivenK x y kCut = Some (kP, rP, f)"
      and st: "step = (if f then Continue kBumped rP (bc + 1) else Continue kP rP (bc + 1))"
      by (auto split: option.splits if_splits)
    from facts [OF rc] st show ?thesis by (auto split: if_splits)
  next
    case nonpar: False
    with False have g: "1 < gcd_js prevR y" by auto
    from assms [unfolded backtrackController_gcd [OF z nonpar g b i kBumped_def kCut_def]]
    obtain kP rP f where rc: "recalcRemaindersWithGivenK x y kCut = Some (kP, rP, f)"
      and st: "step = Continue kP rP (bc + 1)"
      by (auto split: option.splits)
    from facts [OF rc] st show ?thesis by (auto split: if_splits)
  qed
qed

lemma backtrack_loop_length:
  "inverseModFull_backtrack_loop x y k r bc = Some (k', r', evs, bc') \<Longrightarrow>
     length r \<le> maxIterations_backtrack \<Longrightarrow> length k \<le> length r \<or> r = [] \<or> last r = 0 \<Longrightarrow>
     length r' \<le> maxIterations_backtrack"
proof (induction x y k r bc rule: inverseModFull_backtrack_loop.induct)
  case (1 x y k r backtrackCount)
  show ?case
  proof (cases "r \<noteq> [] \<and> 1 < last r \<and> length r < maxIterations_backtrack")
    case False
    with "1.prems" show ?thesis
      by (subst (asm) inverseModFull_backtrack_loop.simps) auto
  next
    case True
    from "1.prems"(1) True obtain kn newR where kn: "tentativeStep (last r) y = Some (kn, newR)"
      by (subst (asm) inverseModFull_backtrack_loop.simps) (auto split: option.splits)
    from "1.prems"(1) True kn obtain step where
      step: "backtrackController x y (k @ [kn]) (r @ [newR]) (last r) newR backtrackCount = Some step"
      by (subst (asm) inverseModFull_backtrack_loop.simps) (auto split: option.splits)
    have unfold: "inverseModFull_backtrack_loop x y k r backtrackCount =
        (case step of
           Continue k' r' bc' \<Rightarrow> inverseModFull_backtrack_loop x y k' r' bc'
         | Stop k' r' evs bc' \<Rightarrow> Some (k', r', evs, bc'))"
      using True kn step
      by (subst inverseModFull_backtrack_loop.simps) simp
    have lenk: "length k \<le> length r" using True "1.prems"(3) by auto
    note facts = backtrackController_lengths [OF step]
    show ?thesis
    proof (cases step)
      case (Stop k2 r2 evs2 bc2)
      with facts "1.prems"(1) True show ?thesis
        unfolding unfold by auto
    next
      case (Continue k2 r2 bc2)
      with "1.prems"(1) have rec: "inverseModFull_backtrack_loop x y k2 r2 bc2 = Some (k', r', evs, bc')"
        unfolding unfold by simp
      from facts Continue True lenk
      have "length r2 \<le> maxIterations_backtrack" "length k2 \<le> length r2 \<or> r2 = [] \<or> last r2 = 0"
        by auto
      from "1.IH" [OF True kn refl step Continue rec this] show ?thesis .
    qed
  qed
qed

lemma inverseModFull_backtrack_budget:
  assumes y: "y < 2 ^ 52"
  shows "\<exists>res. inverseModFull_backtrack x y = Some res
         \<and> res_backtracks res \<le> maxBacktracks
         \<and> length (res_r res) \<le> maxIterations_backtrack"
proof (cases "fst (checkSpecialCases x y) \<or> x mod y = 0")
  case True
  then show ?thesis by (auto simp: inverseModFull_backtrack_def Let_def)
next
  case False
  then have "0 < x mod y" by simp
  define k0 where "k0 = (if js_mul (js_floor_div y (x mod y)) (x mod y) \<le> y
      then js_add (js_floor_div y (x mod y)) 1 else js_floor_div y (x mod y))"
  from normalizeKForBounds_returns [OF \<open>0 < x mod y\<close> y, of k0]
  obtain k1 where k1: "normalizeKForBounds (x mod y) y k0 = Some k1" by blast
  show ?thesis
  proof (cases "js_mul (x mod y) k1 mod y = 0")
    case True
    with False k1 show ?thesis
      by (simp add: inverseModFull_backtrack_def Let_def k0_def maxIterations_backtrack_def)
  next
    case nz: False
    from backtrack_loop_returns [OF _ y, of 0 x "[k1]" "[js_mul (x mod y) k1 mod y]"]
    obtain k r evs bc where l: "inverseModFull_backtrack_loop x y [k1] [js_mul (x mod y) k1 mod y] 0
        = Some (k, r, evs, bc)" and bc: "bc \<le> maxBacktracks"
      by auto
    from backtrack_loop_length [OF l] have "length r \<le> maxIterations_backtrack"
      by (simp add: maxIterations_backtrack_def)
    with False k1 nz l bc show ?thesis
      by (simp add: inverseModFull_backtrack_def Let_def k0_def)
  qed
qed

subsection \<open>The backtracking variant never backtracks\<close>

text \<open>
  For \<open>y < 2 ^ 52\<close> the product \<open>prevR * (floor(y / prevR) + 1)\<close> is exact and lies in
  \<open>(y, y + prevR]\<close>, so \<open>computeNextK\<close> returns \<open>floor(y / prevR) + 1\<close> and the remainder it
  gives is not zero; a local adjustment is only accepted with a non-zero remainder.  Hence
  the loop never pushes a zero remainder, the parity and gcd backtracking blocks are never
  entered, and every run ends with \<open>backtrackCount = 0\<close>.
\<close>

lemma tryLocalAdjustK_from_Some:
  "tryLocalAdjustK_from prevR y currentK tweak = Some (adjustedK, adjustedR) \<Longrightarrow>
     0 < adjustedR \<and> adjustedR < prevR"
proof (induction prevR y currentK tweak rule: tryLocalAdjustK_from.induct)
  case (1 prevR y currentK tweak)
  show ?case
  proof (cases "tweak \<le> maxTweak")
    case False
    with "1.prems" show ?thesis by (subst (asm) tryLocalAdjustK_from.simps) simp
  next
    case True
    define candidateK where "candidateK = js_add currentK tweak"
    define candidateR where "candidateR = js_mul prevR candidateK mod y"
    from "1.prems" True have step:
      "(if candidateR \<noteq> 0 \<and> candidateR < prevR then Some (candidateK, candidateR)
        else tryLocalAdjustK_from prevR y currentK (tweak + 1)) = Some (adjustedK, adjustedR)"
      by (subst (asm) tryLocalAdjustK_from.simps)
         (auto simp: Let_def candidateK_def candidateR_def split: if_splits)
    show ?thesis
    proof (cases "candidateR \<noteq> 0 \<and> candidateR < prevR")
      case good: True
      with step have "adjustedR = candidateR" by simp
      with good show ?thesis by simp
    next
      case False
      with step have "tryLocalAdjustK_from prevR y currentK (tweak + 1) = Some (adjustedK, adjustedR)"
        by (auto split: if_splits)
      from "1.IH" [OF True candidateK_def candidateR_def False this] show ?thesis .
    qed
  qed
qed

lemma computeNextK_exact:
  assumes "0 < prevR" and "prevR < y" and "y < 2 ^ 52"
  obtains kn t where "computeNextK prevR y = Some kn" and "js_mul prevR kn mod y = t"
    and "0 < t" and "t \<le> prevR"
proof -
  define q where "q = y div prevR"
  define m where "m = y mod prevR"
  define kn where "kn = q + 1"
  have y: "y = prevR * q + m" by (simp add: q_def m_def)
  have m: "m < prevR" using assms(1) by (simp add: m_def)
  have gt: "y < prevR * kn" and le: "prevR * kn \<le> y + prevR"
    using m by (simp_all add: y kn_def)
  have "prevR * kn < 2 ^ 53" using le assms(2,3) by simp
  then have ex: "js_mul prevR kn = prevR * kn" "js_mul kn prevR = prevR * kn"
    by (simp_all add: js_mul_exact mult.commute)
  have "q \<le> y" unfolding q_def by (rule div_le_dividend)
  from this assms(3) have "q < 2 ^ 52" by (rule le_less_trans)
  then have "q + 1 < 2 ^ 53" by simp
  then have "js_add q 1 = kn" unfolding kn_def by (rule js_add_exact)
  moreover have "js_floor_div y prevR = q"
    unfolding q_def using assms(1,3) by (intro js_floor_div_exact) simp_all
  ultimately have start: "js_add (js_floor_div y prevR) 1 = kn" by simp
  have 1: "computeNextK prevR y = Some kn"
    unfolding computeNextK_def start
    using gt ex by (subst normalizeKForBounds.simps) simp
  have "prevR * kn - y < y" using le assms(2) by simp
  then have "(prevR * kn) mod y = prevR * kn - y"
    using gt by (simp add: mod_if le_mod_geq)
  then have 2: "js_mul prevR kn mod y = prevR * kn - y"
    using ex by simp
  have 3: "0 < prevR * kn - y" using gt by simp
  have 4: "prevR * kn - y \<le> prevR" using le by simp
  from that [OF 1 2 3 4] show ?thesis .
qed

lemma tentativeStep_nonzero:
  assumes "0 < prevR" and "prevR < y" and "y < 2 ^ 52"
  shows "\<exists>kn newR. tentativeStep prevR y = Some (kn, newR) \<and> 0 < newR \<and> newR < y"
proof -
  from computeNextK_exact [OF assms] obtain kn t
    where kn: "computeNextK prevR y = Some kn" and t: "js_mul prevR kn mod y = t"
      and t0: "0 < t" and tle: "t \<le> prevR" by blast
  have ty: "t < y" using tle assms(2) by simp
  show ?thesis
  proof (cases "tryLocalAdjustK prevR y kn")
    case None
    then show ?thesis
      using t0 ty by (simp add: tentativeStep_def kn t Let_def)
  next
    case (Some a)
    obtain ak ar where a: "a = (ak, ar)" by (cases a) auto
    from tryLocalAdjustK_from_Some [OF Some [unfolded tryLocalAdjustK_def a]] assms(2)
    have "0 < ar" "ar < y" by simp_all
    then show ?thesis
      using t0 ty Some a by (simp add: tentativeStep_def kn t Let_def)
  qed
qed

lemma backtrack_loop_never_backtracks:
  "inverseModFull_backtrack_loop x y k r bc = Some (k', r', evs, bc') \<Longrightarrow> y < 2 ^ 52 \<Longrightarrow>
     r \<noteq> [] \<Longrightarrow> last r < y \<Longrightarrow> bc' = bc"
proof (induction x y k r bc rule: inverseModFull_backtrack_loop.induct)
  case (1 x y k r backtrackCount)
  show ?case
  proof (cases "r \<noteq> [] \<and> 1 < last r \<and> length r < maxIterations_backtrack")
    case False
    with "1.prems" show ?thesis
      by (subst (asm) inverseModFull_backtrack_loop.simps) auto
  next
    case True
    then have "0 < last r" by simp
    from tentativeStep_nonzero [OF this "1.prems"(4,2)]
    obtain kn newR where kn: "tentativeStep (last r) y = Some (kn, newR)"
      and nr: "0 < newR" "newR < y" by blast
    have ctl: "backtrackController x y (k @ [kn]) (r @ [newR]) (last r) newR backtrackCount =
        (if last r \<le> newR then Some (Stop (k @ [kn]) (r @ [newR]) [TerminatedNotDecreasing] backtrackCount)
         else Some (Continue (k @ [kn]) (r @ [newR]) backtrackCount))"
      using nr(1) by (subst backtrackController_plain) simp_all
    show ?thesis
    proof (cases "last r \<le> newR")
      case stop: True
      with "1.prems"(1) True kn ctl show ?thesis
        by (subst (asm) inverseModFull_backtrack_loop.simps) simp
    next
      case False
      with "1.prems"(1) True kn ctl
      have rec: "inverseModFull_backtrack_loop x y (k @ [kn]) (r @ [newR]) backtrackCount
          = Some (k', r', evs, bc')"
        by (subst (asm) inverseModFull_backtrack_loop.simps) simp
      from ctl False
      have c: "backtrackController x y (k @ [kn]) (r @ [newR]) (last r) newR backtrackCount
          = Some (Continue (k @ [kn]) (r @ [newR]) backtrackCount)" by simp
      from "1.IH" [OF True kn refl c refl rec "1.prems"(2)] nr(2) show ?thesis by simp
    qed
  qed
qed

lemma backtrack_never_backtracks:
  assumes "y < 2 ^ 52" and "inverseModFull_backtrack x y = Some res"
  shows "res_backtracks res = 0"
proof (cases "fst (checkSpecialCases x y)")
  case True
  with assms(2) show ?thesis by (auto simp: inverseModFull_backtrack_def)
next
  case ns: False
  show ?thesis
  proof (cases "x mod y = 0")
    case True
    with ns assms(2) show ?thesis by (auto simp: inverseModFull_backtrack_def)
  next
    case False
    define k0 where "k0 = (if js_mul (js_floor_div y (x mod y)) (x mod y) \<le> y
        then js_add (js_floor_div y (x mod y)) 1 else js_floor_div y (x mod y))"
    from assms(2) ns False obtain k1 where k1: "normalizeKForBounds (x mod y) y k0 = Some k1"
      by (auto simp: inverseModFull_backtrack_def Let_def k0_def split: option.splits)
    have ypos: "0 < y" using ns by (cases "y = 0") (auto simp: checkSpecialCases_def)
    show ?thesis
    proof (cases "js_mul (x mod y) k1 mod y = 0")
      case True
      with ns False k1 assms(2) show ?thesis
        by (auto simp: inverseModFull_backtrack_def Let_def k0_def)
    next
      case nz: False
      from assms(2) ns False k1 nz obtain k r evs bc where
        l: "inverseModFull_backtrack_loop x y [k1] [js_mul (x mod y) k1 mod y] 0 = Some (k, r, evs, bc)"
        and res: "res_backtracks res = bc"
        by (auto simp: inverseModFull_backtrack_def Let_def k0_def split: option.splits)
      from backtrack_loop_never_backtracks [OF l assms(1)] ypos res show ?thesis by simp
    qed
  qed
qed

subsection \<open>Validity of the humanized inverse while products are exact\<close>

lemma small_product_exact:
  assumes "m \<le> 2 ^ 26" and "a < m" and "b \<le> m + 3"
  shows "js_mul a b = a * b"
proof -
  have "a * b \<le> m * (m + 3)"
    using assms(2,3) by (intro mult_le_mono) simp_all
  also have "\<dots> \<le> 2 ^ 26 * (2 ^ 26 + 3)"
    using assms(1) by (intro mult_le_mono) simp_all
  also have "\<dots> < (2::nat) ^ 53" by simp
  finally show ?thesis by (rule js_mul_exact)
qed

lemma ceilDiv_le:
  assumes "0 < cur" and "0 < m" and "m + cur < 2 ^ 53"
  shows "ceilDiv m cur \<le> m"
proof -
  have "m + cur - 1 \<le> m * cur"
  proof -
    obtain c where c: "cur = Suc c" using assms(1) by (cases cur) auto
    obtain n where n: "m = Suc n" using assms(2) by (cases m) auto
    show ?thesis unfolding c n by simp
  qed
  then have "(m + cur - 1) div cur \<le> (m * cur) div cur"
    by (rule div_le_mono)
  with assms(1) show ?thesis by (simp add: ceilDiv_exact [OF assms(1,3)])
qed

lemma dfs_sound:
  assumes m: "0 < m" "m \<le> 2 ^ 26" and os: "list_all (\<lambda>ofs. ofs \<le> 3) (multiplierOffsets st)"
  shows "dfs st m cur depth ks rs nodes = (Some (ks', rs'), nodes') \<Longrightarrow> 0 < cur \<Longrightarrow> cur < m \<Longrightarrow>
           \<exists>ms. ks' = ks @ ms \<and> (cur * prod_list ms) mod m = 1 \<and> list_all (\<lambda>kv. kv \<le> m + 3) ms"
    and "dfs_offsets st m cur depth ks rs b offs nodes = (Some (ks', rs'), nodes') \<Longrightarrow> 0 < cur \<Longrightarrow> cur < m \<Longrightarrow>
           b \<le> m \<Longrightarrow> list_all (\<lambda>ofs. ofs \<le> 3) offs \<Longrightarrow>
           \<exists>ms. ks' = ks @ ms \<and> (cur * prod_list ms) mod m = 1 \<and> list_all (\<lambda>kv. kv \<le> m + 3) ms"
  using m os
proof (induction st m cur depth ks rs nodes and st m cur depth ks rs b offs nodes
       arbitrary: ks' rs' nodes' and ks' rs' nodes' rule: dfs_dfs_offsets.induct)
  case (1 st modulus currentRemainder depth chosenMultipliers remainderHistory exploredNodes)
  show ?case
  proof (cases "currentRemainder = 1")
    case True
    with "1.prems"(1) have "ks' = chosenMultipliers"
      by (subst (asm) dfs.simps) (simp split: if_splits)
    with True "1.prems" show ?thesis by simp
  next
    case False
    with "1.prems"(1) have *: "\<not> maxNodes st \<le> exploredNodes" "\<not> maxDepth st \<le> depth"
      and **: "dfs_offsets st modulus currentRemainder depth chosenMultipliers remainderHistory
             (ceilDiv modulus currentRemainder) (multiplierOffsets st) (js_add exploredNodes 1) = (Some (ks', rs'), nodes')"
      by (subst (asm) dfs.simps, simp split: if_splits)+
    have "modulus + currentRemainder < 2 ^ 26 + 2 ^ 26"
      using "1.prems"(3,5) by simp
    then have "modulus + currentRemainder < 2 ^ 53" by simp
    then have b: "ceilDiv modulus currentRemainder \<le> modulus"
      using "1.prems" by (intro ceilDiv_le) simp_all
    from "1.IH" [OF * (1) False * (2) ** "1.prems"(2,3) b "1.prems"(6,4,5,6)] show ?thesis .
  qed
next
  case (2 st modulus currentRemainder depth chosenMultipliers remainderHistory baseMultiplier exploredNodes)
  then show ?case by (simp add: dfs_offsets.simps)
next
  case (3 st modulus currentRemainder depth chosenMultipliers remainderHistory baseMultiplier offset offsets exploredNodes)
  define multiplier where "multiplier = js_add baseMultiplier offset"
  define nextRemainder where "nextRemainder = js_mul currentRemainder multiplier mod modulus"
  have offs: "offset \<le> 3" "list_all (\<lambda>ofs. ofs \<le> 3) offsets"
    using "3.prems"(5) by simp_all
  show ?case
  proof (cases "multiplier = 0 \<or> nextRemainder = 0 \<or> currentRemainder \<le> nextRemainder")
    case True
    with "3.prems"(1) have "dfs_offsets st modulus currentRemainder depth chosenMultipliers remainderHistory
                baseMultiplier offsets exploredNodes = (Some (ks', rs'), nodes')"
      by (simp only: dfs_offsets_skip [OF multiplier_def nextRemainder_def True])
    from "3.IH"(1) [OF multiplier_def nextRemainder_def True this "3.prems"(2,3,4) offs(2) "3.prems"(6,7,8)]
    show ?thesis .
  next
    case False
    have "baseMultiplier + offset \<le> 2 ^ 26 + 3"
      using "3.prems"(4,7) offs(1) by simp
    then have "baseMultiplier + offset < 2 ^ 53" by simp
    then have "multiplier = baseMultiplier + offset"
      unfolding multiplier_def by (rule js_add_exact)
    then have mb: "multiplier \<le> modulus + 3"
      using "3.prems"(4) offs(1) by simp
    have exact: "nextRemainder = (currentRemainder * multiplier) mod modulus"
      unfolding nextRemainder_def
      using small_product_exact [OF "3.prems"(7) "3.prems"(3) mb] by simp
    have nr: "0 < nextRemainder" "nextRemainder < modulus"
      using False "3.prems"(6) by (simp_all add: nextRemainder_def)
    obtain res nodes where d: "dfs st modulus nextRemainder (js_add depth 1) (chosenMultipliers @ [multiplier])
                   (remainderHistory @ [nextRemainder]) exploredNodes = (res, nodes)"
      by (cases "dfs st modulus nextRemainder (js_add depth 1) (chosenMultipliers @ [multiplier])
                   (remainderHistory @ [nextRemainder]) exploredNodes") auto
    show ?thesis
    proof (cases res)
      case None
      with "3.prems"(1) d have "dfs_offsets st modulus currentRemainder depth chosenMultipliers remainderHistory
                  baseMultiplier offsets nodes = (Some (ks', rs'), nodes')"
        by (simp add: dfs_offsets_try [OF multiplier_def nextRemainder_def False])
      from "3.IH"(3) [OF multiplier_def nextRemainder_def False d [symmetric, unfolded None] _ this
          "3.prems"(2,3,4) offs(2) "3.prems"(6,7,8)]
      show ?thesis by simp
    next
      case (Some result)
      with "3.prems"(1) d have r: "result = (ks', rs')" "nodes = nodes'"
        by (simp_all add: dfs_offsets_try [OF multiplier_def nextRemainder_def False])
      from "3.IH"(2) [OF multiplier_def nextRemainder_def False d [unfolded Some r] nr "3.prems"(6,7,8)]
      obtain ms where ih: "ks' = (chosenMultipliers @ [multiplier]) @ ms"
        "(nextRemainder * prod_list ms) mod modulus = 1" "list_all (\<lambda>kv. kv \<le> modulus + 3) ms"
        by blast
      have "(currentRemainder * prod_list (multiplier # ms)) mod modulus
            = ((currentRemainder * multiplier) mod modulus * prod_list ms) mod modulus"
        by (simp add: mod_mult_left_eq mult.assoc)
      also have "\<dots> = 1" using ih(2) exact by simp
      finally show ?thesis
        using ih(1,3) mb by (intro exI [of _ "multiplier # ms"]) simp
    qed
  qed
qed

lemma productModulo_exact:
  assumes "m \<le> 2 ^ 26" and "list_all (\<lambda>kv. kv \<le> m + 3) ms" and "acc < m"
  shows "foldl (\<lambda>acc multiplier. js_mul acc multiplier mod m) acc ms = (acc * prod_list ms) mod m"
  using assms(2,3)
proof (induction ms arbitrary: acc)
  case Nil
  then show ?case by simp
next
  case (Cons kv ms)
  have e: "js_mul acc kv = acc * kv"
    using small_product_exact [OF assms(1) Cons.prems(2)] Cons.prems(1) by simp
  have "(acc * kv) mod m < m" using Cons.prems(2) by simp
  from Cons.IH [OF _ this] Cons.prems(1)
  show ?case by (simp add: e mod_mult_left_eq mult.assoc)
qed

lemma humanized_valid:
  assumes "1 < modulus" and "modulus \<le> 2 ^ 26"
    and "sr_found (findInverseWithBacktracking default_settings base modulus)"
  shows "(sr_inverse (findInverseWithBacktracking default_settings base modulus) * base) mod modulus = 1"
proof -
  define nb where "nb = base mod modulus"
  have os: "list_all (\<lambda>ofs. ofs \<le> 3) (multiplierOffsets default_settings)"
    by (simp add: default_settings_def)
  have pos: "0 < modulus" using assms(1) by simp
  have "modulus < 2 ^ 26 + 1" using assms(2) by simp
  then have small: "modulus < 2 ^ 52" by simp
  note cases = findInverseWithBacktracking_cases [OF pos small]
  show ?thesis
  proof (cases "nb = 0 \<or> nb = 1")
    case True
    with assms(3) have "nb = 1" "sr_inverse (findInverseWithBacktracking default_settings base modulus) = 1"
      by (auto simp: cases nb_def)
    then show ?thesis by (simp add: nb_def)
  next
    case False
    obtain res nodes where d: "dfs default_settings modulus nb 0 [] [nb] 0 = (res, nodes)"
      by (cases "dfs default_settings modulus nb 0 [] [nb] 0") auto
    show ?thesis
    proof (cases res)
      case None
      with d False assms(3) show ?thesis
        by (simp add: cases nb_def)
    next
      case (Some a)
      obtain ms rs where a: "a = (ms, rs)" by (cases a) auto
      have nb: "0 < nb" "nb < modulus" using False assms(1) by (simp_all add: nb_def)
      from dfs_sound(1) [OF _ assms(2) os d [unfolded Some a] nb] assms(1)
      have ms: "(nb * prod_list ms) mod modulus = 1" "list_all (\<lambda>kv. kv \<le> modulus + 3) ms"
        by auto
      have "sr_inverse (findInverseWithBacktracking default_settings base modulus) = productModulo modulus ms"
        using d False Some a by (simp add: cases nb_def)
      also have "\<dots> = prod_list ms mod modulus"
        unfolding productModulo_def
        using productModulo_exact [OF assms(2) ms(2), of 1] assms(1) by simp
      finally have "(sr_inverse (findInverseWithBacktracking default_settings base modulus) * base) mod modulus
          = (prod_list ms * nb) mod modulus"
        by (simp add: nb_def mod_mult_left_eq mod_mult_right_eq)
      with ms(1) show ?thesis by (simp add: mult.commute)
    qed
  qed
qed

subsection \<open>The successful traces of the humanized variant\<close>

text \<open>
  The remainder sequence of a successful result decreases strictly, contains no zero and
  ends at \<open>1\<close>, whatever the modulus; it starts at \<open>base mod modulus\<close> when
  \<open>modulus < 2 ^ 52\<close>, where the sum that normalizes the base is exact.
\<close>

lemma humanized_success_trace:
  assumes "0 < modulus" and "sr_found (findInverseWithBacktracking st base modulus)"
  shows "sr_remainders (findInverseWithBacktracking st base modulus) \<noteq> []
       \<and> successively (\<lambda>a b. b < a) (sr_remainders (findInverseWithBacktracking st base modulus))
       \<and> 0 \<notin> set (sr_remainders (findInverseWithBacktracking st base modulus))
       \<and> last (sr_remainders (findInverseWithBacktracking st base modulus)) = 1
       \<and> (modulus < 2 ^ 52 \<longrightarrow>
            hd (sr_remainders (findInverseWithBacktracking st base modulus)) = base mod modulus)"
proof -
  define nb where "nb = js_add (base mod modulus) modulus mod modulus"
  have nbm: "modulus < 2 ^ 52 \<Longrightarrow> nb = base mod modulus"
    unfolding nb_def using assms(1) by (rule normalizedBase_exact)
  show ?thesis
  proof (cases "nb = 0 \<or> nb = 1")
    case True
    with assms(2) have "nb = 1"
      and "sr_remainders (findInverseWithBacktracking st base modulus) = [1]"
      by (auto simp: findInverseWithBacktracking_def nb_def Let_def)
    with nbm show ?thesis by auto
  next
    case False
    obtain res nodes where d: "dfs st modulus nb 0 [] [nb] 0 = (res, nodes)"
      by (cases "dfs st modulus nb 0 [] [nb] 0") auto
    show ?thesis
    proof (cases res)
      case None
      with d False assms(2) show ?thesis
        by (simp add: findInverseWithBacktracking_def nb_def Let_def)
    next
      case (Some a)
      obtain ms rs where a: "a = (ms, rs)" by (cases a) auto
      from dfs_trace(1) [OF assms(1) d [unfolded Some a]]
      obtain rs2 where rs: "rs = [nb] @ rs2" and ok: "trace_ok modulus nb rs2"
        by auto
      have res: "sr_remainders (findInverseWithBacktracking st base modulus) = nb # rs2"
        using d False Some a rs by (simp add: findInverseWithBacktracking_def nb_def Let_def)
      have "0 \<notin> set rs2"
        using ok by (auto simp: trace_ok_def list_all_iff)
      with ok False nbm show ?thesis
        unfolding res by (simp add: trace_ok_def)
    qed
  qed
qed

subsection \<open>Every run returns for \<open>y < 2 ^ 52\<close>\<close>

text \<open>
  \<open>inverseModFull\<close> of the fixed variant and \<open>findInverseWithBacktracking\<close> are total
  functions (their loops are defined with termination proofs); the fixed loop produces at
  most \<open>maxIterations\<close> remainders, the depth-first search explores at most \<open>maxNodes\<close> nodes
  and chooses at most \<open>maxDepth\<close> multipliers (the shortcut for a normalized base of \<open>1\<close>
  reports one node and one multiplier whatever the settings).  The backtracking variant
  returns a result (it is not \<open>None\<close>), after at most \<open>maxBacktracks\<close> backtracks and with at
  most \<open>maxIterations_backtrack\<close> remainders.
\<close>

lemma every_run_returns_below_2_52:
  assumes "0 < y" and "y < 2 ^ 52" and "maxNodes st < 2 ^ 53 \<and> maxDepth st < 2 ^ 53"
  shows "length (res_r (inverseModFull x y)) \<le> maxIterations
       \<and> sr_exploredNodes (findInverseWithBacktracking st x y) \<le> max 1 (maxNodes st)
       \<and> length (sr_multipliers (findInverseWithBacktracking st x y)) \<le> max 1 (maxDepth st)
       \<and> (\<exists>res. inverseModFull_backtrack x y = Some res
              \<and> res_backtracks res \<le> maxBacktracks
              \<and> length (res_r res) \<le> maxIterations_backtrack)"
  using fixed_length [of x y] humanized_budget [OF assms, of x]
    inverseModFull_backtrack_budget [OF assms(2), of x]
  by simp

section \<open>The claims\<close>

text \<open>
  \<^bold>\<open>C1\<close> (validity of every reported inverse) fails on the fixed variant.  For
  \<open>x = 51\<close>, \<open>y = 421\<close> the remainder sequence ends at \<open>1\<close>, so the run counts as a success,
  and the product of the twelve multipliers is \<open>322022398501171368\<close>, above \<open>2 ^ 53\<close>.
  \<open>inverseModFull\<close> multiplies them as Numbers without reducing modulo \<open>y\<close> in between;
  the rounded product is \<open>322022398501171392\<close> and the returned \<open>z\<close> is \<open>412\<close>, for which
  \<open>(z * x) mod y\<close> is \<open>383\<close>, not \<open>1\<close> (the exact product reduces to \<open>388\<close>, which is the
  inverse).  The log's own validation line reports \<open>false\<close>.
\<close>

theorem C1_fixed_reports_invalid_inverse:
  "last (res_r (inverseModFull 51 421)) = 1
   \<and> inverseMod 51 421 = 412
   \<and> (inverseMod 51 421 * 51) mod 421 = 383
   \<and> res_log (inverseModFull 51 421) = [ProductOfMultipliers 412, Validation False]"
  by (simp add: inverseMod_def fixed_51_421)

text \<open>
  \<^bold>\<open>C2\<close> as stated (a guaranteed mode that returns Success for every coprime pair) fails:
  the only entry point of the humanized module is heuristic-only, and for the coprime pair
  \<open>(7, 12)\<close> it returns the search failure.  The backtracking variant also returns \<open>0\<close>
  there; its call of the extended Euclidean algorithm only adds the note "Correct inverse
  = 7" to the log.
\<close>

theorem C2_counterexample_coprime_pair_without_success:
  "gcd_js 7 12 = 1
   \<and> computeModularInverse default_settings 7 12 = Failure SearchDidNotFind
   \<and> inverseMod_backtrack 7 12 = Some 0
   \<and> map_option res_log (inverseModFull_backtrack 7 12)
       = Some [TerminatedNotDecreasing, FailedFinalRemainder 2, CorrectInverseNote 7,
               Validation False]"
  by (simp add: gcd_js.simps compute_7_12 inverseMod_backtrack_def backtrack_7_12)

text \<open>
  \<^bold>\<open>C2\<close>, amended: for every coprime pair with \<open>modulus > 1\<close>, \<open>computeModularInverse\<close>
  (default options) returns either Success with the inverse found by the heuristic
  search or the failure "heuristic search did not find an inverse within bounds", never
  the not-coprime or invalid-input failure.  There is no Extended-GCD fallback and no
  second mode.  A returned inverse satisfies \<open>(inverse * base) mod modulus = 1\<close> whenever
  \<open>modulus \<le> 2 ^ 26\<close>, where every product the module forms is exact.
\<close>

theorem C2_coprime_input_succeeds_or_search_fails:
  assumes "gcd base modulus = 1" and "1 < modulus"
  shows "computeModularInverse default_settings base modulus = Failure SearchDidNotFind
       \<or> (\<exists>inverse_found ms rs nodes.
             computeModularInverse default_settings base modulus = Success inverse_found ms rs nodes
             \<and> (modulus \<le> 2 ^ 26 \<longrightarrow> (inverse_found * base) mod modulus = 1))"
proof (cases "sr_found (findInverseWithBacktracking default_settings base modulus)")
  case False
  with assms show ?thesis
    by (simp add: computeModularInverse_def computeGreatestCommonDivisor_def gcd_js_eq Let_def)
next
  case True
  have "modulus \<le> 2 ^ 26 \<Longrightarrow>
      (sr_inverse (findInverseWithBacktracking default_settings base modulus) * base) mod modulus = 1"
    using humanized_valid [OF assms(2) _ True] by simp
  with True assms show ?thesis
    by (simp add: computeModularInverse_def computeGreatestCommonDivisor_def gcd_js_eq Let_def)
qed

text \<open>The hypotheses of \<^bold>\<open>C2\<close> hold at \<open>base = 5\<close>, \<open>modulus = 12\<close>.\<close>

theorem C2_witness:
  "gcd (5::nat) 12 = 1 \<and> (1::nat) < 12 \<and> (12::nat) \<le> 2 ^ 26
   \<and> computeModularInverse default_settings 5 12 = Success 5 [5] [5, 1] 3
   \<and> (5 * 5) mod 12 = (1::nat)"
proof -
  have g: "gcd (5::nat) 12 = 1"
    by (simp add: gcd_js_eq [symmetric] gcd_js.simps)
  show ?thesis
    using C2_coprime_input_succeeds_or_search_fails [of 5 12] g compute_5_12 by simp
qed

text \<open>
  \<^bold>\<open>C3\<close>: for positive \<open>base\<close> and \<open>modulus\<close> with \<open>gcd base modulus = g > 1\<close> every
  variant returns its not-coprime failure reporting \<open>g\<close>, before any multiplier or
  remainder has been produced: \<open>computeModularInverse\<close> returns the failure with the reason
  (its \<open>details\<close> are \<open>null\<close>), and both \<open>inverseModFull\<close> return \<open>z = 0\<close> with the
  not-coprime message and empty arrays \<open>k\<close> and \<open>r\<close>.
\<close>

theorem C3_not_coprime_is_reported_before_any_search:
  assumes "0 < base" and "0 < modulus" and "gcd base modulus = g" and "1 < g"
  shows "computeModularInverse st base modulus = Failure (NoInverseExists base modulus g)
       \<and> inverseModFull base modulus =
           \<lparr>res_log = [Special [NotCoprimeMsg base modulus g]], res_z = 0, res_k = [], res_r = []\<rparr>
       \<and> inverseModFull_backtrack base modulus =
           Some \<lparr>res_log = [Special [NotCoprimeMsg base modulus g]], res_z = 0, res_k = [],
                 res_r = [], res_backtracks = 0\<rparr>"
  using assms
  by (simp add: computeModularInverse_def computeGreatestCommonDivisor_def inverseModFull_def
      inverseModFull_backtrack_def checkSpecialCases_def gcd_js_eq)

text \<open>The hypotheses of \<^bold>\<open>C3\<close> hold at \<open>base = 4\<close>, \<open>modulus = 6\<close>, \<open>g = 2\<close>.\<close>

theorem C3_witness:
  "(0::nat) < 4 \<and> (0::nat) < 6 \<and> gcd (4::nat) 6 = 2 \<and> (1::nat) < 2
   \<and> computeModularInverse default_settings 4 6 = Failure (NoInverseExists 4 6 2)
   \<and> inverseModFull 4 6 =
        \<lparr>res_log = [Special [NotCoprimeMsg 4 6 2]], res_z = 0, res_k = [], res_r = []\<rparr>
   \<and> inverseModFull_backtrack 4 6 =
        Some \<lparr>res_log = [Special [NotCoprimeMsg 4 6 2]], res_z = 0, res_k = [], res_r = [],
              res_backtracks = 0\<rparr>"
proof -
  have g: "gcd (4::nat) 6 = 2"
    by (simp add: gcd_js_eq [symmetric] gcd_js.simps)
  show ?thesis
    using C3_not_coprime_is_reported_before_any_search [of 4 6 2 default_settings] g by simp
qed

text \<open>
  \<^bold>\<open>C4\<close> (\<open>base = 5\<close>, \<open>modulus = 12\<close>: the fixed baseline fails, the search with
  backtracking returns \<open>5\<close>).  The fixed variant reaches remainder \<open>0\<close> and returns \<open>0\<close>, and
  the humanized depth-first search returns \<open>5\<close>.  The parity-backtracking variant, whose
  test expects \<open>5\<close> here, stops at the stagnating remainder \<open>3\<close> without any backtrack and
  returns \<open>0\<close>; the value \<open>5\<close> only appears in the note its log takes from \<open>extendedGcd\<close>.
\<close>

theorem C4_inverse_of_5_mod_12:
  "inverseMod 5 12 = 0
   \<and> res_r (inverseModFull 5 12) = [3, 0]
   \<and> modularInverse default_settings 5 12 = Some 5
   \<and> inverseMod_backtrack 5 12 = Some 0
   \<and> map_option res_r (inverseModFull_backtrack 5 12) = Some [3, 3]
   \<and> map_option res_backtracks (inverseModFull_backtrack 5 12) = Some 0
   \<and> map_option res_log (inverseModFull_backtrack 5 12)
       = Some [TerminatedNotDecreasing, FailedFinalRemainder 3, CorrectInverseNote 5,
               Validation False]"
  by (simp add: inverseMod_def fixed_5_12 modularInverse_def compute_5_12
      inverseMod_backtrack_def backtrack_5_12)

text \<open>
  \<^bold>\<open>C5\<close> as stated (every multiplier is \<open>floor(modulus / r) + 1\<close>, never \<open>modulus / r\<close>)
  fails on the fixed variant at \<open>(5, 12)\<close>: the first remainder is \<open>3\<close>, which divides \<open>12\<close>,
  and the second multiplier is \<open>12 / 3 = 4\<close>, not \<open>5\<close>.  The humanized search, on the same
  input, chooses the multiplier \<open>5\<close> for the remainder \<open>5\<close>, not \<open>floor(12 / 5) + 1 = 3\<close>.
\<close>

theorem C5_counterexample_divides_evenly_branch:
  "res_r (inverseModFull 5 12) ! 0 = 3 \<and> 12 mod (3::nat) = 0
   \<and> res_k (inverseModFull 5 12) ! 1 = 12 div 3
   \<and> res_k (inverseModFull 5 12) ! 1 \<noteq> 12 div 3 + 1
   \<and> sr_remainders (findInverseWithBacktracking default_settings 5 12) = [5, 1]
   \<and> sr_multipliers (findInverseWithBacktracking default_settings 5 12) = [5]
   \<and> (5::nat) \<noteq> 12 div 5 + 1"
  by (simp add: fixed_5_12 humanized_5_12)

text \<open>
  \<^bold>\<open>C5\<close>, amended: on coprime inputs with \<open>1 < y < 2 ^ 52\<close>, in the fixed variant the
  initial multiplier is \<open>floor(y / (x mod y)) + 1\<close> whether or not \<open>x mod y\<close> divides \<open>y\<close>, and
  every later multiplier is \<open>y / r\<close> when the previous remainder \<open>r\<close> divides \<open>y\<close> and
  \<open>floor(y / r) + 1\<close> when it does not.  In the humanized variant (unless \<open>x mod y = 1\<close>,
  where no search is run), with offsets below \<open>2 ^ 52\<close>, every multiplier of the returned
  trace is that same value, \<open>ceil(y / r)\<close>, plus one of the configured offsets.  (\<open>butlast\<close>
  of the remainders lists those that have a successor, \<open>tl k\<close> the multipliers after the
  first.  Beyond \<open>2 ^ 52\<close> the quotients and sums of the source are rounded, and the
  statement says nothing.)
\<close>

theorem C5_multiplier_rule:
  assumes "0 < x" and "1 < y" and "y < 2 ^ 52" and "gcd x y = 1"
  shows "hd (res_k (inverseModFull x y)) = y div (x mod y) + 1
       \<and> list_all2 (\<lambda>prevR kn. kn = (if y mod prevR = 0 then y div prevR else y div prevR + 1))
           (butlast (res_r (inverseModFull x y))) (tl (res_k (inverseModFull x y)))
       \<and> (x mod y \<noteq> 1 \<and> list_all (\<lambda>ofs. ofs < 2 ^ 52) (multiplierOffsets st) \<longrightarrow>
            list_all2 (\<lambda>prevR kn. \<exists>offset\<in>set (multiplierOffsets st).
                  kn = (if y mod prevR = 0 then y div prevR else y div prevR + 1) + offset)
              (butlast (sr_remainders (findInverseWithBacktracking st x y)))
              (sr_multipliers (findInverseWithBacktracking st x y)))"
proof -
  have nz: "x mod y \<noteq> 0"
  proof
    assume "x mod y = 0"
    then have "y dvd x" by auto
    then have "gcd x y = y" by (simp add: gcd_nat.absorb2)
    with assms show False by simp
  qed
  have sp: "\<not> fst (checkSpecialCases x y)"
    using assms by (simp add: checkSpecialCases_def gcd_js_eq)
  have pos: "0 < y" using assms(2) by simp
  define kj where "kj = js_add (js_floor_div y (x mod y)) 1"
  have "y div (x mod y) \<le> y" by (rule div_le_dividend)
  from this assms(3) have "y div (x mod y) < 2 ^ 52" by (rule le_less_trans)
  then have "y div (x mod y) + 1 < 2 ^ 53" by simp
  then have "js_add (y div (x mod y)) 1 = y div (x mod y) + 1" by (rule js_add_exact)
  moreover have "js_floor_div y (x mod y) = y div (x mod y)"
    using nz assms(3) by (intro js_floor_div_exact) simp_all
  ultimately have kj: "kj = y div (x mod y) + 1" by (simp add: kj_def)
  define r1 where "r1 = js_mul (x mod y) kj mod y"
  obtain k r evs where l: "inverseModFull_loop y [kj] [r1] = (k, r, evs)"
    by (cases "inverseModFull_loop y [kj] [r1]") auto
  have res: "res_k (inverseModFull x y) = k" "res_r (inverseModFull x y) = r"
    using sp nz l by (simp_all add: inverseModFull_def Let_def kj_def r1_def)
  from fixed_loop_rule [OF l _ _ _ assms(3)] have "hd k = kj
     \<and> list_all2 (\<lambda>prevR kn. kn = (if y mod prevR = 0 then y div prevR else y div prevR + 1))
         (butlast r) (tl k)"
    by simp
  then have fixed:
    "hd (res_k (inverseModFull x y)) = y div (x mod y) + 1
     \<and> list_all2 (\<lambda>prevR kn. kn = (if y mod prevR = 0 then y div prevR else y div prevR + 1))
         (butlast (res_r (inverseModFull x y))) (tl (res_k (inverseModFull x y)))"
    unfolding res kj .
  with humanized_rule [OF pos assms(3), of x st] show ?thesis by blast
qed

text \<open>
  The hypotheses of \<^bold>\<open>C5\<close> hold at \<open>x = 5\<close>, \<open>y = 12\<close>: the fixed variant's multipliers are
  \<open>[3, 4]\<close> for the remainders \<open>[3, 0]\<close>, the humanized multiplier is \<open>5 = 3 + 2\<close>.
\<close>

theorem C5_witness:
  "(0::nat) < 5 \<and> (1::nat) < 12 \<and> (12::nat) < 2 ^ 52 \<and> gcd (5::nat) 12 = 1
   \<and> (5::nat) mod 12 \<noteq> 1
   \<and> list_all (\<lambda>ofs. ofs < 2 ^ 52) (multiplierOffsets default_settings)
   \<and> hd (res_k (inverseModFull 5 12)) = 12 div (5 mod 12) + 1
   \<and> list_all2 (\<lambda>prevR kn. kn = (if 12 mod prevR = 0 then 12 div prevR else 12 div prevR + 1))
        (butlast (res_r (inverseModFull 5 12))) (tl (res_k (inverseModFull 5 12)))
   \<and> list_all2 (\<lambda>prevR kn. \<exists>offset\<in>set (multiplierOffsets default_settings).
             kn = (if 12 mod prevR = 0 then 12 div prevR else 12 div prevR + 1) + offset)
        (butlast (sr_remainders (findInverseWithBacktracking default_settings 5 12)))
        (sr_multipliers (findInverseWithBacktracking default_settings 5 12))"
proof -
  have g: "gcd (5::nat) 12 = 1"
    by (simp add: gcd_js_eq [symmetric] gcd_js.simps)
  have o: "list_all (\<lambda>ofs. ofs < 2 ^ 52) (multiplierOffsets default_settings)"
    by (simp add: default_settings_def)
  show ?thesis
    using C5_multiplier_rule [of 5 12 default_settings] g o by simp
qed

text \<open>
  \<^bold>\<open>C6\<close> as stated (the remainder sequence is one longer than the multiplier sequence in
  every returned trace) fails in the humanized variant when \<open>base mod modulus = 1\<close>: for
  \<open>(1, 10)\<close> it returns the multipliers \<open>[1]\<close> and the remainders \<open>[1]\<close>.
\<close>

theorem C6_counterexample_base_one:
  "length (sr_remainders (findInverseWithBacktracking default_settings 1 10))
     \<noteq> length (sr_multipliers (findInverseWithBacktracking default_settings 1 10)) + 1"
  using humanized_1_10 by simp

text \<open>
  \<^bold>\<open>C6\<close>, amended: for \<open>0 < modulus < 2 ^ 52\<close> (and offsets below \<open>2 ^ 52\<close>), every
  remainder of a returned trace lies in \<open>[0, modulus)\<close>.  In the humanized variant the remainder sequence is one longer than
  the multiplier sequence and starts with the seed \<open>base mod modulus\<close>, except when
  \<open>base mod modulus = 1\<close>, where the trace is multipliers \<open>[1]\<close>, remainders \<open>[1]\<close>.  In the
  fixed variant the arrays \<open>r\<close> and \<open>k\<close> have the same length: \<open>r\<close> holds the remainder
  each multiplier produced, without the seed.  (From \<open>2 ^ 52\<close> on the sum that normalizes
  the base is rounded; the statement says nothing there.)
\<close>

theorem C6_trace_lengths_and_remainder_range:
  assumes "0 < modulus" and "modulus < 2 ^ 52"
    and "list_all (\<lambda>ofs. ofs < 2 ^ 52) (multiplierOffsets st)"
  shows "list_all (\<lambda>v. v < modulus) (sr_remainders (findInverseWithBacktracking st base modulus))
       \<and> (if base mod modulus = 1
          then sr_multipliers (findInverseWithBacktracking st base modulus) = [1]
             \<and> sr_remainders (findInverseWithBacktracking st base modulus) = [1]
          else length (sr_remainders (findInverseWithBacktracking st base modulus))
                 = length (sr_multipliers (findInverseWithBacktracking st base modulus)) + 1
             \<and> hd (sr_remainders (findInverseWithBacktracking st base modulus)) = base mod modulus)
       \<and> length (res_r (inverseModFull base modulus)) = length (res_k (inverseModFull base modulus))
       \<and> list_all (\<lambda>v. v < modulus) (res_r (inverseModFull base modulus))"
  using humanized_trace_shape [OF assms(1,2), of st base] fixed_trace_shape [OF assms(1), of base]
  by simp

text \<open>The hypotheses of \<^bold>\<open>C6\<close> hold at \<open>base = 5\<close>, \<open>modulus = 12\<close>.\<close>

theorem C6_witness:
  "(0::nat) < 12 \<and> (12::nat) < 2 ^ 52
   \<and> list_all (\<lambda>ofs. ofs < 2 ^ 52) (multiplierOffsets default_settings)
   \<and> sr_multipliers (findInverseWithBacktracking default_settings 5 12) = [5]
   \<and> sr_remainders (findInverseWithBacktracking default_settings 5 12) = [5, 1]
   \<and> list_all (\<lambda>v. v < 12) (sr_remainders (findInverseWithBacktracking default_settings 5 12))
   \<and> length (sr_remainders (findInverseWithBacktracking default_settings 5 12))
        = length (sr_multipliers (findInverseWithBacktracking default_settings 5 12)) + 1
   \<and> length (res_r (inverseModFull 5 12)) = length (res_k (inverseModFull 5 12))
   \<and> list_all (\<lambda>v. v < 12) (res_r (inverseModFull 5 12))"
proof -
  have o: "list_all (\<lambda>ofs. ofs < 2 ^ 52) (multiplierOffsets default_settings)"
    by (simp add: default_settings_def)
  show ?thesis
    using C6_trace_lengths_and_remainder_range [of 12 default_settings 5] o
    by (simp add: humanized_5_12)
qed



text \<open>
  \<^bold>\<open>C8\<close> (every invocation on positive integers terminates) fails in the backtracking
  variant.  The loop of \<open>normalizeKForBounds\<close> has no cap, and for \<open>x = 1\<close>, \<open>y = 2 ^ 53\<close> it
  never ends: \<open>k1 = Math.floor(y / 1) = 2 ^ 53\<close>, \<open>k1 * 1 <= y\<close> holds, and \<open>k1++\<close> leaves
  \<open>k1\<close> at \<open>2 ^ 53\<close> because \<open>2 ^ 53 + 1\<close> is not a Number.  \<open>None\<close> is "does not return".
  For \<open>y < 2 ^ 52\<close> every run returns, within its budgets: \<open>every_run_returns_below_2_52\<close>.
\<close>

theorem C8_backtracking_variant_does_not_return:
  "gcd_js 1 9007199254740992 = 1
   \<and> js_floor_div 9007199254740992 1 = 9007199254740992
   \<and> js_add 9007199254740992 1 = 9007199254740992
   \<and> normalizeKForBounds 1 9007199254740992 9007199254740992 = None
   \<and> inverseModFull_backtrack 1 9007199254740992 = None
   \<and> inverseMod_backtrack 1 9007199254740992 = None"
proof -
  have g: "gcd_js 1 9007199254740992 = 1" by (simp add: gcd_js.simps)
  have a: "js_add 9007199254740992 1 = 9007199254740992" using js_add_2_53 by simp
  have i: "inverseMod_backtrack 1 9007199254740992 = None"
    unfolding inverseMod_backtrack_def backtrack_1_big by simp
  from g js_floor_div_2_53 a normalizeKForBounds_loops backtrack_1_big i
  show ?thesis by (intro conjI)
qed

text \<open>
  \<^bold>\<open>C9\<close> (every successful remainder sequence of the humanized variant starts at
  \<open>base mod modulus\<close>, decreases strictly, contains no zero and ends at \<open>1\<close>) fails at
  \<open>base = 2\<close>, \<open>modulus = 2 ^ 53 - 1\<close>: the sum \<open>(base % modulus) + modulus = 2 ^ 53 + 1\<close>
  is rounded to \<open>2 ^ 53\<close>, whose remainder is \<open>1\<close>, so the shortcut for a normalized base of
  \<open>1\<close> returns success with the remainders \<open>[1]\<close> and the inverse \<open>1\<close>, while
  \<open>base mod modulus\<close> is \<open>2\<close> (and \<open>1 * 2\<close> is not \<open>1\<close> modulo the modulus).  For
  \<open>modulus < 2 ^ 52\<close> the claim holds: \<open>humanized_success_trace\<close>.
\<close>

theorem C9_success_trace_does_not_start_at_base:
  "gcd_js 2 9007199254740991 = 1
   \<and> (2::nat) mod 9007199254740991 = 2
   \<and> js_add (2 mod 9007199254740991) 9007199254740991 = 9007199254740992
   \<and> findInverseWithBacktracking default_settings 2 9007199254740991 =
        \<lparr>sr_found = True, sr_inverse = 1, sr_multipliers = [1], sr_remainders = [1],
         sr_exploredNodes = 1\<rparr>
   \<and> computeModularInverse default_settings 2 9007199254740991 = Success 1 [1] [1] 1
   \<and> hd (sr_remainders (findInverseWithBacktracking default_settings 2 9007199254740991))
        \<noteq> 2 mod 9007199254740991
   \<and> (sr_inverse (findInverseWithBacktracking default_settings 2 9007199254740991) * 2)
        mod 9007199254740991 \<noteq> 1"
  by (simp add: gcd_js.simps humanized_2_big compute_2_big js_add_def round_double_2_53_1)

text \<open>
  \<^bold>\<open>C10\<close> (\<open>z = 0\<close> exactly on failure, in the fixed variant) fails by the same rounding of
  the product.  For \<open>x = 119\<close>, \<open>y = 1261\<close> the inputs are coprime and the remainder sequence
  ends at \<open>1\<close>, yet the rounded product of the multipliers is a multiple of \<open>1261\<close> and
  the returned \<open>z\<close> is the failure value \<open>0\<close>.
\<close>

theorem C10_fixed_zero_on_success:
  "gcd_js 119 1261 = 1
   \<and> last (res_r (inverseModFull 119 1261)) = 1
   \<and> inverseMod 119 1261 = 0
   \<and> res_log (inverseModFull 119 1261) = [ProductOfMultipliers 0, Validation False]"
  by (simp add: inverseMod_def fixed_119_1261 gcd_js.simps)

end
